theory Spec2Isabelle
  imports Complex_Main "HOL-Library.Word"
begin

section \<open>Edge lists to sparse matrices: \<^verbatim>\<open>sknetwork/utils/parse.py\<close>\<close>

text \<open>
  The module holds two functions, \<^verbatim>\<open>edgelist2adjacency\<close> and \<^verbatim>\<open>edgelist2biadjacency\<close>.
  Both hand a Python list of tuples to \<^verbatim>\<open>np.array\<close>, slice the first two columns and
  coerce them with \<^verbatim>\<open>astype(np.int32)\<close>, take the maxima, pick the values (the third column,
  or an array of \<^verbatim>\<open>True\<close>), and call \<^verbatim>\<open>sparse.csr_matrix((data, (row, col)), shape)\<close>.

  The embedding follows these steps one by one. What NumPy and SciPy do at each step is
  written out as a HOL function of the same name:
  \<^item> a field of an edge is a Python \<^verbatim>\<open>int\<close> or a Python \<^verbatim>\<open>float\<close>. The integers covered are
    the ones of the signed 64-bit range, which \<^verbatim>\<open>np.array\<close> types as \<^verbatim>\<open>int64\<close>; they are held
    as \<open>64 word\<close> and read with \<open>sint\<close>. A larger Python integer makes \<^verbatim>\<open>np.array\<close> leave
    \<^verbatim>\<open>int64\<close> (for \<^verbatim>\<open>uint64\<close>, \<^verbatim>\<open>float64\<close> or an array of objects); such an edge list cannot be
    written here, and no property below speaks of one;
  \<^item> a \<^verbatim>\<open>float64\<close> is held as the real number it denotes; infinities and NaN are outside
    the model. The arithmetic of \<^verbatim>\<open>float64\<close> rounds, the arithmetic of the reals does not:
    the two agree where the exact result is a \<^verbatim>\<open>float64\<close> again, and a property of
    computed \<^verbatim>\<open>float64\<close> values is stated below only where they agree;
  \<^item> an exception is a value \<open>Inl e\<close> of the result type;
  \<^item> the arithmetic of NumPy scalars is the one of the NumPy 1.x line the module was
    written for (May 2020): \<^verbatim>\<open>row.max() + 1\<close> is computed in 64 bits.
\<close>

subsection \<open>Python values and exceptions\<close>

datatype pynum = PyInt "64 word" | PyFloat real

text \<open>
  \<open>IndexError\<close> and \<open>ValueError\<close> are the exceptions NumPy and SciPy raise on the paths
  of this module. The other four are the names of the specification's error taxonomy;
  no statement of the module constructs them.
\<close>

datatype error =
    IndexError | ValueError
  | EmptyInput | MalformedEdge | IndexOverflow | NegativeIndex

subsection \<open>NumPy arrays\<close>

datatype dtype = dt_bool | dt_int64 | dt_float64

text \<open>A one-dimensional array: homogeneous, its element type fixed by the constructor.\<close>

datatype ndarray =
    BoolArr "bool list"
  | Int64Arr "64 word list"
  | Float64Arr "real list"

fun dtype_of :: "ndarray \<Rightarrow> dtype" where
  "dtype_of (BoolArr _) = dt_bool"
| "dtype_of (Int64Arr _) = dt_int64"
| "dtype_of (Float64Arr _) = dt_float64"

fun size_of :: "ndarray \<Rightarrow> nat" where
  "size_of (BoolArr xs) = length xs"
| "size_of (Int64Arr xs) = length xs"
| "size_of (Float64Arr xs) = length xs"

text \<open>
  What \<^verbatim>\<open>np.array(edgelist)\<close> returns. \<open>Arr1D\<close> is an array with a single axis: the empty
  \<^verbatim>\<open>float64\<close> array of shape \<^verbatim>\<open>(0,)\<close> made from \<^verbatim>\<open>[]\<close>, or the object array of tuples made
  from records of different lengths. The two-dimensional arrays carry \<^verbatim>\<open>shape[1]\<close> and
  their rows.
\<close>

datatype ndarray2 =
    Arr1D
  | Int64Arr2 nat "64 word list list"
  | Float64Arr2 nat "real list list"

fun as_int64 :: "pynum \<Rightarrow> 64 word option" where
  "as_int64 (PyInt i) = Some i"
| "as_int64 (PyFloat x) = None"

text \<open>
  The conversion of a field to \<^verbatim>\<open>float64\<close>. It is exact for an integer of magnitude up to
  \<open>2 ^ 53\<close>; a larger one is rounded by \<^verbatim>\<open>np.array\<close> and kept as it is here.
\<close>

fun as_float64 :: "pynum \<Rightarrow> real" where
  "as_float64 (PyInt i) = real_of_int (sint i)"
| "as_float64 (PyFloat x) = x"

text \<open>
  Type discovery of \<^verbatim>\<open>np.array\<close>: all fields integers gives \<^verbatim>\<open>int64\<close>; one float anywhere
  (or no field at all) gives \<^verbatim>\<open>float64\<close>, every integer converted. Records of different
  lengths give the one-axis array of objects of the NumPy versions before 1.24, the ones
  the module was written for; from 1.24 on \<^verbatim>\<open>np.array\<close> itself refuses such a list with a
  \<^verbatim>\<open>ValueError\<close>. No property below depends on which of the two errors is raised.
\<close>

definition np_array :: "pynum list list \<Rightarrow> ndarray2" where
  "np_array edgelist =
     (case edgelist of
        [] \<Rightarrow> Arr1D
      | e # es \<Rightarrow>
          if list_ex (\<lambda>r. length r \<noteq> length e) es then Arr1D
          else (case those (map (\<lambda>r. those (map as_int64 r)) edgelist) of
                  Some rows \<Rightarrow>
                    if concat edgelist = [] then Float64Arr2 (length e) (map (map as_float64) edgelist)
                    else Int64Arr2 (length e) rows
                | None \<Rightarrow> Float64Arr2 (length e) (map (map as_float64) edgelist)))"

text \<open>\<^verbatim>\<open>edges[:, k]\<close>: too many indices on a 1-D array, out of bounds past the last column.\<close>

fun column :: "ndarray2 \<Rightarrow> nat \<Rightarrow> error + ndarray" where
  "column Arr1D k = Inl IndexError"
| "column (Int64Arr2 w rows) k =
     (if k < w then Inr (Int64Arr (map (\<lambda>r. r ! k) rows)) else Inl IndexError)"
| "column (Float64Arr2 w rows) k =
     (if k < w then Inr (Float64Arr (map (\<lambda>r. r ! k) rows)) else Inl IndexError)"

text \<open>\<^verbatim>\<open>edges.shape[1]\<close>, read only after the slices succeeded.\<close>

fun shape1 :: "ndarray2 \<Rightarrow> error + nat" where
  "shape1 Arr1D = Inl IndexError"
| "shape1 (Int64Arr2 w rows) = Inr w"
| "shape1 (Float64Arr2 w rows) = Inr w"

text \<open>
  \<^verbatim>\<open>astype(np.int32)\<close>. An \<^verbatim>\<open>int64\<close> keeps its low 32 bits. A \<^verbatim>\<open>float64\<close> is truncated
  towards zero; out of the range of \<^verbatim>\<open>int32\<close> the C conversion is undefined, and the
  value taken here is the one of x86-64, \<open>- 2 ^ 31\<close>.
\<close>

definition float_to_int32 :: "real \<Rightarrow> 32 word" where
  "float_to_int32 x =
     (let t = (if 0 \<le> x then \<lfloor>x\<rfloor> else \<lceil>x\<rceil>)
      in if - (2 ^ 31) \<le> t \<and> t < 2 ^ 31 then word_of_int t else word_of_int (- (2 ^ 31)))"

fun astype_int32 :: "ndarray \<Rightarrow> 32 word list" where
  "astype_int32 (BoolArr xs) = map (\<lambda>b. if b then 1 else 0) xs"
| "astype_int32 (Int64Arr xs) = map ucast xs"
| "astype_int32 (Float64Arr xs) = map float_to_int32 xs"

text \<open>\<^verbatim>\<open>a.max()\<close> of an \<^verbatim>\<open>int32\<close> array; a zero-size array has no maximum.\<close>

fun amax :: "32 word list \<Rightarrow> error + int" where
  "amax [] = Inl ValueError"
| "amax (x # xs) = Inr (fold (\<lambda>y m. max (sint y) m) xs (sint x))"

text \<open>\<^verbatim>\<open>np.ones_like(row, dtype=bool)\<close>.\<close>

definition ones_like_bool :: "32 word list \<Rightarrow> ndarray" where
  "ones_like_bool row = BoolArr (map (\<lambda>_. True) row)"

subsection \<open>SciPy: from coordinates to compressed sparse rows\<close>

record csr_matrix =
  shape :: "nat \<times> nat"
  indptr :: "nat list"
  indices :: "nat list"
  data :: ndarray

text \<open>The entries of row \<open>i\<close>, as (column, value) pairs in the order of the input.\<close>

definition row_entries :: "nat \<Rightarrow> nat list \<Rightarrow> nat list \<Rightarrow> 'a list \<Rightarrow> (nat \<times> 'a) list" where
  "row_entries i row col vals = map snd (filter (\<lambda>e. fst e = i) (zip row (zip col vals)))"

text \<open>
  \<^verbatim>\<open>csr_sum_duplicates\<close>: in a row sorted by column, a run of equal columns becomes one
  entry, the values added from left to right.
\<close>

fun sum_duplicates :: "('a \<Rightarrow> 'a \<Rightarrow> 'a) \<Rightarrow> (nat \<times> 'a) list \<Rightarrow> (nat \<times> 'a) list" where
  "sum_duplicates add [] = []"
| "sum_duplicates add [e] = [e]"
| "sum_duplicates add ((j, x) # (k, y) # es) =
     (if j = k then sum_duplicates add ((j, add x y) # es)
      else (j, x) # sum_duplicates add ((k, y) # es))"

text \<open>The row pointers: running totals of the row lengths, starting at 0.\<close>

fun cumsum :: "nat \<Rightarrow> nat list \<Rightarrow> nat list" where
  "cumsum acc [] = [acc]"
| "cumsum acc (n # ns) = acc # cumsum (acc + n) ns"

text \<open>
  \<^verbatim>\<open>coo_matrix.tocsr\<close>: the entries are grouped by row (\<^verbatim>\<open>coo_tocsr\<close>), every row is sorted
  by column (\<^verbatim>\<open>sort_indices\<close>) and its duplicates are summed (\<^verbatim>\<open>sum_duplicates\<close>).
  The result is the three arrays \<^verbatim>\<open>indptr\<close>, \<^verbatim>\<open>indices\<close>, \<^verbatim>\<open>data\<close>.
\<close>

definition csr_rows :: "('a \<Rightarrow> 'a \<Rightarrow> 'a) \<Rightarrow> nat \<Rightarrow> nat list \<Rightarrow> nat list \<Rightarrow> 'a list \<Rightarrow> (nat \<times> 'a) list list" where
  "csr_rows add M row col vals =
     map (\<lambda>i. sum_duplicates add (sort_key fst (row_entries i row col vals))) [0..<M]"

definition tocsr :: "('a \<Rightarrow> 'a \<Rightarrow> 'a) \<Rightarrow> nat \<Rightarrow> nat list \<Rightarrow> nat list \<Rightarrow> 'a list \<Rightarrow> nat list \<times> nat list \<times> 'a list" where
  "tocsr add M row col vals =
     (let rs = csr_rows add M row col vals
      in (cumsum 0 (map length rs), concat (map (map fst) rs), concat (map (map snd) rs)))"

text \<open>
  The addition of each value type: NumPy's \<^verbatim>\<open>bool\<close> adds by logical or and \<^verbatim>\<open>int64\<close> wraps
  around, both as in the library. For \<^verbatim>\<open>float64\<close> the reals are added: this is the value
  the library computes when every partial sum is a \<^verbatim>\<open>float64\<close>, and differs from it by the
  rounding otherwise (\<open>2 ^ 53 + 1\<close> is stored as \<open>2 ^ 53\<close>). The order in which SciPy adds
  the duplicates of a coordinate is not fixed by its sort; it does not matter for \<^verbatim>\<open>bool\<close>
  and \<^verbatim>\<open>int64\<close>, nor for \<^verbatim>\<open>float64\<close> where the partial sums are exact.
\<close>

fun assemble :: "nat \<times> nat \<Rightarrow> nat list \<Rightarrow> nat list \<Rightarrow> ndarray \<Rightarrow> csr_matrix" where
  "assemble shp row col (BoolArr vs) =
     (case tocsr (\<or>) (fst shp) row col vs of
        (p, j, x) \<Rightarrow> \<lparr>shape = shp, indptr = p, indices = j, data = BoolArr x\<rparr>)"
| "assemble shp row col (Int64Arr vs) =
     (case tocsr (+) (fst shp) row col vs of
        (p, j, x) \<Rightarrow> \<lparr>shape = shp, indptr = p, indices = j, data = Int64Arr x\<rparr>)"
| "assemble shp row col (Float64Arr vs) =
     (case tocsr (+) (fst shp) row col vs of
        (p, j, x) \<Rightarrow> \<lparr>shape = shp, indptr = p, indices = j, data = Float64Arr x\<rparr>)"

text \<open>An \<^verbatim>\<open>int32\<close> index that passed the checks, as a position of the matrix.\<close>

definition pos :: "32 word \<Rightarrow> nat" where
  "pos r = nat (sint r)"

text \<open>
  \<^verbatim>\<open>sparse.csr_matrix((data, (row, col)), shape=(M, N))\<close>. The constructor refuses a
  negative dimension, buffers of different lengths, and an index that is negative or not
  below the dimension of its axis, each with a \<^verbatim>\<open>ValueError\<close>.
\<close>

definition csr_matrix :: "ndarray \<Rightarrow> 32 word list \<Rightarrow> 32 word list \<Rightarrow> int \<times> int \<Rightarrow> error + csr_matrix" where
  "csr_matrix dat row col shp =
     (if fst shp < 0 \<or> snd shp < 0 then Inl ValueError
      else if \<not> (length row = length col \<and> size_of dat = length row) then Inl ValueError
      else if list_ex (\<lambda>r. fst shp \<le> sint r) row \<or> list_ex (\<lambda>c. snd shp \<le> sint c) col then Inl ValueError
      else if list_ex (\<lambda>r. sint r < 0) row \<or> list_ex (\<lambda>c. sint c < 0) col then Inl ValueError
      else Inr (assemble (nat (fst shp), nat (snd shp))
                  (map pos row) (map pos col) dat))"

subsection \<open>Reading a matrix\<close>

datatype scalar = B bool | I "64 word" | F real

fun tolist :: "ndarray \<Rightarrow> scalar list" where
  "tolist (BoolArr xs) = map B xs"
| "tolist (Int64Arr xs) = map I xs"
| "tolist (Float64Arr xs) = map F xs"

definition nnz :: "csr_matrix \<Rightarrow> nat" where
  "nnz m = length (indices m)"

text \<open>The slice of an array between two consecutive row pointers.\<close>

definition segment :: "nat list \<Rightarrow> nat \<Rightarrow> 'a list \<Rightarrow> 'a list" where
  "segment p i xs = take (p ! Suc i - p ! i) (drop (p ! i) xs)"

definition row_indices :: "csr_matrix \<Rightarrow> nat \<Rightarrow> nat list" where
  "row_indices m i = segment (indptr m) i (indices m)"

definition row_data :: "csr_matrix \<Rightarrow> nat \<Rightarrow> scalar list" where
  "row_data m i = segment (indptr m) i (tolist (data m))"

text \<open>The values stored at coordinate \<open>(i, j)\<close>, one per stored entry there.\<close>

definition stored_at :: "csr_matrix \<Rightarrow> nat \<Rightarrow> nat \<Rightarrow> scalar list" where
  "stored_at m i j = map snd (filter (\<lambda>e. fst e = j) (zip (row_indices m i) (row_data m i)))"

subsection \<open>The symmetrization routine\<close>

text \<open>
  \<^verbatim>\<open>directed2undirected\<close> is imported from \<^verbatim>\<open>sknetwork.utils\<close>, which is not among the
  sources. The specification gives its contract: the input is a square sparse matrix, the
  output a square sparse matrix equal to the entry-wise combination of the input and its
  transpose; the combining operator is the maximum, the sum or the logical or, and is
  left open. The operator is therefore a parameter of the model.
\<close>

datatype policy = Maximum | Sum | LogicalOr

definition entry :: "'a \<Rightarrow> nat list \<Rightarrow> nat list \<Rightarrow> 'a list \<Rightarrow> nat \<Rightarrow> nat \<Rightarrow> 'a" where
  "entry z p js xs i j =
     (case map_of (zip (segment p i js) (segment p i xs)) j of None \<Rightarrow> z | Some v \<Rightarrow> v)"

definition sym_rows :: "'a \<Rightarrow> ('a \<Rightarrow> 'a \<Rightarrow> 'a) \<Rightarrow> nat \<Rightarrow> (nat \<Rightarrow> nat \<Rightarrow> 'a) \<Rightarrow> (nat \<times> 'a) list list" where
  "sym_rows z f n g =
     map (\<lambda>i. filter (\<lambda>e. snd e \<noteq> z) (map (\<lambda>j. (j, f (g i j) (g j i))) [0..<n])) [0..<n]"

definition max_int64 :: "64 word \<Rightarrow> 64 word \<Rightarrow> 64 word" where
  "max_int64 a b = (if sint a \<le> sint b then b else a)"

definition of_rows :: "nat \<times> nat \<Rightarrow> ('a list \<Rightarrow> ndarray) \<Rightarrow> (nat \<times> 'a) list list \<Rightarrow> csr_matrix" where
  "of_rows shp mk rs =
     \<lparr>shape = shp, indptr = cumsum 0 (map length rs),
      indices = concat (map (map fst) rs), data = mk (concat (map (map snd) rs))\<rparr>"

text \<open>
  Modelled from the spec: the routine \<^verbatim>\<open>directed2undirected\<close> of \<^verbatim>\<open>sknetwork.utils\<close>, missing
  from the sources. For every coordinate \<open>(i, j)\<close> of the square range it combines the value
  of the input at \<open>(i, j)\<close> with the value at \<open>(j, i)\<close>, an absent entry counting as the zero
  of the value type, and stores the result when it is not zero; the rows of the result
  are in ascending order of column, as the specification has it for every compressed
  sparse row matrix. Under the logical or the values of the result are booleans.
\<close>

definition directed2undirected :: "policy \<Rightarrow> csr_matrix \<Rightarrow> csr_matrix" where
  "directed2undirected pol m =
     (let n = fst (shape m); p = indptr m; js = indices m in
      case data m of
        BoolArr xs \<Rightarrow>
          of_rows (shape m) BoolArr (sym_rows False (\<or>) n (entry False p js xs))
      | Int64Arr xs \<Rightarrow>
          (case pol of
             Maximum \<Rightarrow> of_rows (shape m) Int64Arr (sym_rows 0 max_int64 n (entry 0 p js xs))
           | Sum \<Rightarrow> of_rows (shape m) Int64Arr (sym_rows 0 (+) n (entry 0 p js xs))
           | LogicalOr \<Rightarrow>
               of_rows (shape m) BoolArr
                 (sym_rows False (\<or>) n (\<lambda>i j. entry 0 p js xs i j \<noteq> 0)))
      | Float64Arr xs \<Rightarrow>
          (case pol of
             Maximum \<Rightarrow> of_rows (shape m) Float64Arr (sym_rows 0 max n (entry 0 p js xs))
           | Sum \<Rightarrow> of_rows (shape m) Float64Arr (sym_rows 0 (+) n (entry 0 p js xs))
           | LogicalOr \<Rightarrow>
               of_rows (shape m) BoolArr
                 (sym_rows False (\<or>) n (\<lambda>i j. entry 0 p js xs i j \<noteq> 0))))"

text \<open>
  The contract of the routine in the specification's words, on single values: the value
  of a matrix at a coordinate (the zero of its value type where nothing is stored), and
  the three combining operators. \<open>directed2undirected\<close> above is given on the arrays; that
  it meets this contract is proved below.
\<close>

fun zero_of :: "ndarray \<Rightarrow> scalar" where
  "zero_of (BoolArr _) = B False"
| "zero_of (Int64Arr _) = I 0"
| "zero_of (Float64Arr _) = F 0"

definition value_at :: "csr_matrix \<Rightarrow> nat \<Rightarrow> nat \<Rightarrow> scalar" where
  "value_at m i j =
     (case map_of (zip (row_indices m i) (row_data m i)) j of
        None \<Rightarrow> zero_of (data m)
      | Some v \<Rightarrow> v)"

fun truthy :: "scalar \<Rightarrow> bool" where
  "truthy (B b) = b"
| "truthy (I i) = (i \<noteq> 0)"
| "truthy (F x) = (x \<noteq> 0)"

fun combine :: "policy \<Rightarrow> scalar \<Rightarrow> scalar \<Rightarrow> scalar" where
  "combine Maximum (B a) (B b) = B (a \<or> b)"
| "combine Maximum (I a) (I b) = I (max_int64 a b)"
| "combine Maximum (F a) (F b) = F (max a b)"
| "combine Sum (B a) (B b) = B (a \<or> b)"
| "combine Sum (I a) (I b) = I (a + b)"
| "combine Sum (F a) (F b) = F (a + b)"
| "combine LogicalOr x y = B (truthy x \<or> truthy y)"
| "combine pol x y = x"

subsection \<open>The two conversions\<close>

text \<open>
  \<^verbatim>\<open>edgelist2adjacency(edgelist, undirected=False)\<close>, lines 41 to 51. The first argument
  is the combining rule of \<^verbatim>\<open>directed2undirected\<close>, which the call leaves to that routine.
\<close>

definition edgelist2adjacency :: "policy \<Rightarrow> pynum list list \<Rightarrow> bool \<Rightarrow> error + csr_matrix" where
  "edgelist2adjacency pol edgelist undirected =
     (let edges = np_array edgelist in
      case column edges 0 of Inl e \<Rightarrow> Inl e | Inr c0 \<Rightarrow>
     (case column edges 1 of Inl e \<Rightarrow> Inl e | Inr c1 \<Rightarrow>
     (let row = astype_int32 c0; col = astype_int32 c1 in
      case amax row of Inl e \<Rightarrow> Inl e | Inr rmax \<Rightarrow>
     (case amax col of Inl e \<Rightarrow> Inl e | Inr cmax \<Rightarrow>
     (let n = max rmax cmax + 1 in
      case shape1 edges of Inl e \<Rightarrow> Inl e | Inr w \<Rightarrow>
     (case (if 2 < w then column edges 2 else Inr (ones_like_bool row)) of
        Inl e \<Rightarrow> Inl e
      | Inr dat \<Rightarrow>
     (case csr_matrix dat row col (n, n) of
        Inl e \<Rightarrow> Inl e
      | Inr adjacency \<Rightarrow>
          if undirected then Inr (directed2undirected pol adjacency) else Inr adjacency)))))))"

text \<open>\<^verbatim>\<open>edgelist2biadjacency(edgelist)\<close>, lines 77 to 85.\<close>

definition edgelist2biadjacency :: "pynum list list \<Rightarrow> error + csr_matrix" where
  "edgelist2biadjacency edgelist =
     (let edges = np_array edgelist in
      case column edges 0 of Inl e \<Rightarrow> Inl e | Inr c0 \<Rightarrow>
     (case column edges 1 of Inl e \<Rightarrow> Inl e | Inr c1 \<Rightarrow>
     (let row = astype_int32 c0; col = astype_int32 c1 in
      case amax row of Inl e \<Rightarrow> Inl e | Inr rmax \<Rightarrow>
     (case amax col of Inl e \<Rightarrow> Inl e | Inr cmax \<Rightarrow>
     (let n_row = rmax + 1; n_col = cmax + 1 in
      case shape1 edges of Inl e \<Rightarrow> Inl e | Inr w \<Rightarrow>
     (case (if 2 < w then column edges 2 else Inr (ones_like_bool row)) of
        Inl e \<Rightarrow> Inl e
      | Inr dat \<Rightarrow> csr_matrix dat row col (n_row, n_col)))))))"

subsection \<open>The coordinate buffers\<close>

text \<open>
  Lines 41, 42 and 44 to 47 of \<^verbatim>\<open>edgelist2adjacency\<close> are the statements of lines 77, 78
  and 80 to 83 of \<^verbatim>\<open>edgelist2biadjacency\<close>: they leave the three buffers \<^verbatim>\<open>row\<close>, \<^verbatim>\<open>col\<close>
  and \<^verbatim>\<open>data\<close> that go to \<^verbatim>\<open>csr_matrix\<close>. \<open>coordinate_buffers\<close> names this common result,
  so that a property can speak of the coordinates the code reads from an edge list.
\<close>

definition coordinate_buffers :: "pynum list list \<Rightarrow> error + (32 word list \<times> 32 word list \<times> ndarray)" where
  "coordinate_buffers edgelist =
     (let edges = np_array edgelist in
      case column edges 0 of Inl e \<Rightarrow> Inl e | Inr c0 \<Rightarrow>
     (case column edges 1 of Inl e \<Rightarrow> Inl e | Inr c1 \<Rightarrow>
     (let row = astype_int32 c0; col = astype_int32 c1 in
      case shape1 edges of Inl e \<Rightarrow> Inl e | Inr w \<Rightarrow>
     (case (if 2 < w then column edges 2 else Inr (ones_like_bool row)) of
        Inl e \<Rightarrow> Inl e
      | Inr dat \<Rightarrow> Inr (row, col, dat)))))"

text \<open>The values of the records whose coordinate pair is \<open>rc\<close>, in the order of the input.\<close>

definition values_at :: "'i list \<Rightarrow> 'i list \<Rightarrow> 'a list \<Rightarrow> 'i \<times> 'i \<Rightarrow> 'a list" where
  "values_at row col vals rc = map snd (filter (\<lambda>e. fst e = rc) (zip (zip row col) vals))"

text \<open>Their sum in the value type of the buffer: a logical or, a wrapping sum, a sum of reals.\<close>

fun duplicates_total :: "'i list \<Rightarrow> 'i list \<Rightarrow> ndarray \<Rightarrow> 'i \<times> 'i \<Rightarrow> scalar" where
  "duplicates_total row col (BoolArr vs) rc = B (list_ex id (values_at row col vs rc))"
| "duplicates_total row col (Int64Arr vs) rc = I (sum_list (values_at row col vs rc))"
| "duplicates_total row col (Float64Arr vs) rc = F (sum_list (values_at row col vs rc))"



subsection \<open>Edge lists of the data model\<close>

fun is_int :: "pynum \<Rightarrow> bool" where
  "is_int (PyInt i) = True"
| "is_int (PyFloat x) = False"

text \<open>An index field: a non-negative integer that a signed 32-bit integer can hold.\<close>

fun valid_index :: "pynum \<Rightarrow> bool" where
  "valid_index (PyInt i) = (0 \<le> sint i \<and> sint i < 2 ^ 31)"
| "valid_index (PyFloat x) = False"

fun index_of :: "pynum \<Rightarrow> nat" where
  "index_of (PyInt i) = nat (sint i)"
| "index_of (PyFloat x) = nat \<lfloor>x\<rfloor>"

text \<open>
  A non-empty edge list whose records all have two fields, or all three, the first two
  of every record being index fields.
\<close>

definition well_formed :: "pynum list list \<Rightarrow> bool" where
  "well_formed es =
     (es \<noteq> []
      \<and> (list_all (\<lambda>e. length e = 2) es \<or> list_all (\<lambda>e. length e = 3) es)
      \<and> list_all (\<lambda>e. valid_index (e ! 0) \<and> valid_index (e ! 1)) es)"

text \<open>The largest index in field \<open>k\<close> of the records.\<close>

definition max_index :: "nat \<Rightarrow> pynum list list \<Rightarrow> nat" where
  "max_index k es = Max (set (map (\<lambda>e. index_of (e ! k)) es))"

text \<open>
  An integer reduced to its low 32 bits and read back as a signed integer, and an edge
  whose two index fields are reduced so.
\<close>

definition wrap32 :: "64 word \<Rightarrow> 64 word" where
  "wrap32 i = scast (ucast i :: 32 word)"

fun wrap_edge :: "pynum list \<Rightarrow> pynum list" where
  "wrap_edge (PyInt r # PyInt c # ws) = PyInt (wrap32 r) # PyInt (wrap32 c) # ws"
| "wrap_edge e = e"

text \<open>What a returned matrix is: the assembly of the buffers, none of whose indices is negative.\<close>

definition built_from :: "csr_matrix \<Rightarrow> 32 word list \<Rightarrow> 32 word list \<Rightarrow> ndarray \<Rightarrow> bool" where
  "built_from m row col dat \<longleftrightarrow>
     row \<noteq> [] \<and> length row = length col \<and> size_of dat = length col
     \<and> list_all (\<lambda>r. 0 \<le> sint r) row \<and> list_all (\<lambda>c. 0 \<le> sint c) col
     \<and> (\<exists>M N. m = assemble (M, N) (map pos row) (map pos col) dat
           \<and> list_all (\<lambda>r. pos r < M) row)"

section \<open>Properties\<close>

subsection \<open>The exceptions of the two conversions\<close>

lemma column_error: "column a k = Inl e \<Longrightarrow> e = IndexError"
  by (cases a) (auto split: if_splits)

lemma shape1_error: "shape1 a = Inl e \<Longrightarrow> e = IndexError"
  by (cases a) auto

lemma amax_error: "amax xs = Inl e \<Longrightarrow> e = ValueError"
  by (cases xs) auto

lemma csr_matrix_error: "csr_matrix dat row col shp = Inl e \<Longrightarrow> e = ValueError"
  by (auto simp: csr_matrix_def split: if_splits)

lemma edgelist2biadjacency_error:
  "edgelist2biadjacency es = Inl e \<Longrightarrow> e = IndexError \<or> e = ValueError"
  unfolding edgelist2biadjacency_def Let_def
  by (auto split: sum.splits if_splits dest: column_error shape1_error amax_error csr_matrix_error)

lemma edgelist2adjacency_error:
  "edgelist2adjacency pol es u = Inl e \<Longrightarrow> e = IndexError \<or> e = ValueError"
  unfolding edgelist2adjacency_def Let_def
  by (auto split: sum.splits if_splits dest: column_error shape1_error amax_error csr_matrix_error)

subsection \<open>The empty edge list\<close>

text \<open>
  C4, as the claim states it, fails: on the empty edge list neither conversion ends with
  the error \<open>EmptyInput\<close>.
\<close>

theorem empty_edge_list_counterexample:
  "edgelist2adjacency Maximum [] False \<noteq> Inl EmptyInput
   \<and> edgelist2biadjacency [] \<noteq> Inl EmptyInput"
  by (simp add: edgelist2adjacency_def edgelist2biadjacency_def np_array_def)

text \<open>
  C4, amended: on the empty edge list both conversions fail, with the \<open>IndexError\<close> of
  the first column slice \<^verbatim>\<open>edges[:, 0]\<close> (the array made from \<^verbatim>\<open>[]\<close> has one axis only). The
  slice comes before the call of \<^verbatim>\<open>csr_matrix\<close>, so no matrix is built and none is
  returned, whatever the symmetrization flag.
\<close>

theorem empty_edge_list_fails:
  "column (np_array []) 0 = Inl IndexError
   \<and> edgelist2adjacency pol [] undirected = Inl IndexError
   \<and> edgelist2biadjacency [] = Inl IndexError"
  by (simp add: edgelist2adjacency_def edgelist2biadjacency_def np_array_def)

subsection \<open>Row pointers and segments\<close>

lemma length_cumsum: "length (cumsum a ns) = Suc (length ns)"
  by (induction ns arbitrary: a) auto

lemma cumsum_nth: "k \<le> length ns \<Longrightarrow> cumsum a ns ! k = a + sum_list (take k ns)"
proof (induction ns arbitrary: a k)
  case Nil
  then show ?case by simp
next
  case (Cons n ns)
  then show ?case by (cases k) (auto simp: add.assoc)
qed

lemma drop_concat_take:
  "drop (length (concat (take i xss))) (concat xss) = concat (drop i xss)"
proof (induction xss arbitrary: i)
  case Nil
  then show ?case by simp
next
  case (Cons xs xss)
  then show ?case by (cases i) auto
qed

lemma segment_concat:
  assumes "i < length rs"
  shows "segment (cumsum 0 (map length rs)) i (concat (map (map f) rs)) = map f (rs ! i)"
proof -
  let ?ns = "map length rs"
  let ?xss = "map (map f) rs"
  have len: "\<And>k. sum_list (take k ?ns) = length (concat (take k ?xss))"
    by (simp add: length_concat take_map comp_def)
  have p0: "cumsum 0 ?ns ! i = length (concat (take i ?xss))"
    using assms by (simp add: cumsum_nth len del: length_concat)
  have "take (Suc i) ?ns = take i ?ns @ [length (rs ! i)]"
    using assms by (simp add: take_Suc_conv_app_nth)
  then have p1: "cumsum 0 ?ns ! Suc i = cumsum 0 ?ns ! i + length (rs ! i)"
    using assms by (simp add: cumsum_nth)
  have "drop i ?xss = map f (rs ! i) # drop (Suc i) ?xss"
    using assms Cons_nth_drop_Suc [of i ?xss] by simp
  then have "drop (cumsum 0 ?ns ! i) (concat ?xss) = map f (rs ! i) @ concat (drop (Suc i) ?xss)"
    by (simp only: p0 drop_concat_take concat.simps)
  then show ?thesis
    by (simp add: segment_def p1)
qed

lemma segment_empty_iff:
  assumes "i < length rs"
  shows "cumsum 0 (map length rs) ! i = cumsum 0 (map length rs) ! Suc i \<longleftrightarrow> rs ! i = []"
proof -
  have "take (Suc i) (map length rs) = take i (map length rs) @ [length (rs ! i)]"
    using assms by (simp add: take_Suc_conv_app_nth)
  then show ?thesis using assms by (simp add: cumsum_nth)
qed

subsection \<open>Summing the duplicates of a sorted row\<close>

lemma sum_duplicates_keys: "fst ` set (sum_duplicates add es) = fst ` set es"
  by (induction add es rule: sum_duplicates.induct) auto

lemma sum_duplicates_sorted:
  "sorted (map fst es) \<Longrightarrow> sorted_wrt (<) (map fst (sum_duplicates add es))"
proof (induction add es rule: sum_duplicates.induct)
  case (3 add j x k y es)
  show ?case
  proof (cases "j = k")
    case True
    with 3 show ?thesis by simp
  next
    case False
    with 3 have jk: "j < k" by simp
    have "\<forall>q \<in> fst ` set (sum_duplicates add ((k, y) # es)). j < q"
      unfolding sum_duplicates_keys using 3(3) jk by auto
    with 3 False show ?thesis by auto
  qed
qed auto

lemma sum_duplicates_filter:
  "sorted (map fst es) \<Longrightarrow>
   filter (\<lambda>e. fst e = q) (sum_duplicates add es) =
     (case map snd (filter (\<lambda>e. fst e = q) es) of [] \<Rightarrow> [] | v # vs \<Rightarrow> [(q, foldl add v vs)])"
proof (induction add es rule: sum_duplicates.induct)
  case (3 add j x k y es)
  show ?case
  proof (cases "j = k")
    case True
    with 3 show ?thesis by (auto split: list.splits)
  next
    case False
    with 3 have jk: "j < k" by simp
    have nj: "filter (\<lambda>e. fst e = j) ((k, y) # es) = []"
      using 3(3) jk by (auto simp: filter_empty_conv)
    from 3 False show ?thesis
      using nj by (auto split: list.splits)
  qed
qed (auto split: list.splits)

subsection \<open>The three arrays of \<open>tocsr\<close>\<close>

lemma length_csr_rows: "length (csr_rows add M row col vals) = M"
  by (simp add: csr_rows_def)

lemma csr_rows_nth:
  "i < M \<Longrightarrow> csr_rows add M row col vals ! i =
     sum_duplicates add (sort_key fst (row_entries i row col vals))"
  by (simp add: csr_rows_def)

lemma row_entries_filter:
  "map snd (filter (\<lambda>e. fst e = j) (row_entries i row col vals)) = values_at row col vals (i, j)"
proof (induction row arbitrary: col vals)
  case Nil
  then show ?case by (simp add: row_entries_def values_at_def)
next
  case (Cons r row)
  show ?case
  proof (cases col)
    case Nil
    then show ?thesis by (simp add: row_entries_def values_at_def)
  next
    case c: (Cons c col')
    show ?thesis
    proof (cases vals)
      case Nil
      then show ?thesis by (simp add: row_entries_def values_at_def)
    next
      case (Cons v vals')
      with c Cons.IH [of col' vals'] show ?thesis
        by (auto simp: row_entries_def values_at_def)
    qed
  qed
qed

lemma row_entries_keys:
  "length row = length col \<Longrightarrow> length col = length vals \<Longrightarrow>
   fst ` set (row_entries i row col vals) = {c. (i, c) \<in> set (zip row col)}"
proof (induction row col vals rule: list_induct3)
  case Nil
  then show ?case by (simp add: row_entries_def)
next
  case (Cons r row c col v vals)
  then show ?case by (auto simp: row_entries_def)
qed

lemma row_entries_empty:
  "length row = length col \<Longrightarrow> length col = length vals \<Longrightarrow>
   row_entries i row col vals = [] \<longleftrightarrow> i \<notin> set row"
proof (induction row col vals rule: list_induct3)
  case Nil
  then show ?case by (simp add: row_entries_def)
next
  case (Cons r row c col v vals)
  then show ?case by (auto simp: row_entries_def)
qed

lemma sum_duplicates_empty: "sum_duplicates add es = [] \<longleftrightarrow> es = []"
  using sum_duplicates_keys [of add es] by (metis image_is_empty set_empty)

lemma csr_row_sorted:
  "sorted_wrt (<) (map fst (sum_duplicates add (sort_key fst es)))"
  by (rule sum_duplicates_sorted) simp

lemma csr_row_filter:
  "filter (\<lambda>e. fst e = j) (sum_duplicates add (sort_key fst es)) =
     (case map snd (filter (\<lambda>e. fst e = j) es) of [] \<Rightarrow> [] | v # vs \<Rightarrow> [(j, foldl add v vs)])"
  by (simp add: sum_duplicates_filter sort_key_stable)

lemma segment_map: "segment p i (map f xs) = map f (segment p i xs)"
  by (simp add: segment_def take_map drop_map)

lemma tocsr_indices:
  assumes "tocsr add M row col vals = (p, js, xs)" and "i < M"
  shows "segment p i js = map fst (csr_rows add M row col vals ! i)"
  using assms segment_concat [of i "csr_rows add M row col vals" fst]
  by (auto simp: tocsr_def Let_def length_csr_rows)

lemma tocsr_data:
  assumes "tocsr add M row col vals = (p, js, xs)" and "i < M"
  shows "segment p i xs = map snd (csr_rows add M row col vals ! i)"
  using assms segment_concat [of i "csr_rows add M row col vals" snd]
  by (auto simp: tocsr_def Let_def length_csr_rows)

lemma tocsr_indptr:
  assumes "tocsr add M row col vals = (p, js, xs)" and "i < M"
  shows "p ! i = p ! Suc i \<longleftrightarrow> csr_rows add M row col vals ! i = []"
  using assms segment_empty_iff [of i "csr_rows add M row col vals"]
  by (auto simp: tocsr_def Let_def length_csr_rows)

lemma tocsr_lengths:
  assumes "tocsr add M row col vals = (p, js, xs)"
  shows "length p = Suc M" and "length js = length xs"
  using assms by (auto simp: tocsr_def Let_def length_csr_rows length_cumsum length_concat comp_def)

lemma tocsr_row_sorted:
  assumes "tocsr add M row col vals = (p, js, xs)" and "i < M"
  shows "sorted_wrt (<) (segment p i js)"
  by (simp add: tocsr_indices [OF assms] csr_rows_nth [OF assms(2)] csr_row_sorted)

lemma tocsr_row_keys:
  assumes "tocsr add M row col vals = (p, js, xs)" and "i < M"
    and "length row = length col" and "length col = length vals"
  shows "set (segment p i js) = {c. (i, c) \<in> set (zip row col)}"
proof -
  have "set (segment p i js) = fst ` set (sort_key fst (row_entries i row col vals))"
    by (simp add: tocsr_indices [OF assms(1,2)] csr_rows_nth [OF assms(2)] sum_duplicates_keys)
  then show ?thesis
    by (simp add: row_entries_keys [OF assms(3,4)])
qed

lemma tocsr_row_empty:
  assumes "tocsr add M row col vals = (p, js, xs)" and "i < M"
    and "length row = length col" and "length col = length vals"
  shows "p ! i = p ! Suc i \<longleftrightarrow> i \<notin> set row"
proof -
  have "sort_key fst (row_entries i row col vals) = [] \<longleftrightarrow> row_entries i row col vals = []"
    by (metis length_0_conv length_sort)
  then show ?thesis
    by (simp add: tocsr_indptr [OF assms(1,2)] csr_rows_nth [OF assms(2)] sum_duplicates_empty
        row_entries_empty [OF assms(3,4)])
qed

lemma tocsr_stored:
  assumes "tocsr add M row col vals = (p, js, xs)" and "i < M"
  shows "map snd (filter (\<lambda>e. fst e = j) (zip (segment p i js) (segment p i (map C xs)))) =
     (case values_at row col vals (i, j) of [] \<Rightarrow> [] | v # vs \<Rightarrow> [C (foldl add v vs)])"
proof -
  let ?r = "csr_rows add M row col vals ! i"
  have z: "zip (segment p i js) (segment p i (map C xs)) = map (\<lambda>e. (fst e, C (snd e))) ?r"
    by (simp add: segment_map tocsr_indices [OF assms] tocsr_data [OF assms] zip_map_map
        zip_same_conv_map )
  have "map snd (filter (\<lambda>e. fst e = j) (map (\<lambda>e. (fst e, C (snd e))) ?r)) =
        map (\<lambda>e. C (snd e)) (filter (\<lambda>e. fst e = j) ?r)"
    by (simp add: filter_map comp_def)
  also have "\<dots> = (case values_at row col vals (i, j) of [] \<Rightarrow> [] | v # vs \<Rightarrow> [C (foldl add v vs)])"
    by (simp add: csr_rows_nth [OF assms(2)] csr_row_filter row_entries_filter split: list.splits)
  finally show ?thesis by (simp only: z)
qed

subsection \<open>The assembled matrix\<close>

lemma foldl_or: "foldl (\<or>) v vs = list_ex id (v # vs)"
  by (induction vs arbitrary: v) auto

lemma foldl_plus: "foldl (+) v vs = sum_list (v # vs)" for v :: "'a::monoid_add"
  by (induction vs arbitrary: v) (auto simp: add.assoc)

lemma values_at_empty:
  "length row = length col \<Longrightarrow> length col = length vals \<Longrightarrow>
   values_at row col vals rc = [] \<longleftrightarrow> rc \<notin> set (zip row col)"
proof (induction row col vals rule: list_induct3)
  case Nil
  then show ?case by (simp add: values_at_def)
next
  case (Cons r row c col v vals)
  then show ?case by (auto simp: values_at_def)
qed

lemma values_at_map:
  "inj_on f (insert r (insert c (set row \<union> set col))) \<Longrightarrow>
   values_at (map f row) (map f col) vals (f r, f c) = values_at row col vals (r, c)"
proof (induction row arbitrary: col vals)
  case Nil
  then show ?case by (simp add: values_at_def)
next
  case (Cons a row)
  show ?case
  proof (cases col)
    case Nil
    then show ?thesis by (simp add: values_at_def)
  next
    case c: (Cons b col')
    show ?thesis
    proof (cases vals)
      case Nil
      then show ?thesis by (simp add: values_at_def)
    next
      case (Cons v vals')
      have inj': "inj_on f (insert r (insert c (set row \<union> set col')))"
        using Cons.prems c by (auto intro: inj_on_subset)
      have a: "f a = f r \<longleftrightarrow> a = r" and b: "f b = f c \<longleftrightarrow> b = c"
        using Cons.prems c by (auto simp: inj_on_def)
      from Cons.IH [OF inj', of vals'] a b show ?thesis
        using c Cons by (auto simp: values_at_def)
    qed
  qed
qed

lemma assemble_shape: "shape (assemble shp row col dat) = shp"
  by (cases dat) (auto split: prod.splits)

lemma assemble_dtype: "dtype_of (data (assemble shp row col dat)) = dtype_of dat"
  by (cases dat) (auto split: prod.splits)

lemma assemble_row_sorted:
  "i < fst shp \<Longrightarrow> sorted_wrt (<) (row_indices (assemble shp row col dat) i)"
  by (cases dat) (auto simp: row_indices_def split: prod.splits dest: tocsr_row_sorted)

lemma assemble_row_keys:
  assumes "i < fst shp" and "length row = length col" and "size_of dat = length col"
  shows "set (row_indices (assemble shp row col dat) i) = {c. (i, c) \<in> set (zip row col)}"
proof (cases dat)
  case (BoolArr vs)
  obtain p js xs where t: "tocsr (\<or>) (fst shp) row col vs = (p, js, xs)" by (cases "tocsr (\<or>) (fst shp) row col vs")
  show ?thesis using assms BoolArr t tocsr_row_keys [OF t assms(1,2)] by (simp add: row_indices_def)
next
  case (Int64Arr vs)
  obtain p js xs where t: "tocsr (+) (fst shp) row col vs = (p, js, xs)" by (cases "tocsr (+) (fst shp) row col vs")
  show ?thesis using assms Int64Arr t tocsr_row_keys [OF t assms(1,2)] by (simp add: row_indices_def)
next
  case (Float64Arr vs)
  obtain p js xs where t: "tocsr (+) (fst shp) row col vs = (p, js, xs)" by (cases "tocsr (+) (fst shp) row col vs")
  show ?thesis using assms Float64Arr t tocsr_row_keys [OF t assms(1,2)] by (simp add: row_indices_def)
qed

lemma assemble_row_empty:
  assumes "i < fst shp" and "length row = length col" and "size_of dat = length col"
  shows "indptr (assemble shp row col dat) ! i = indptr (assemble shp row col dat) ! Suc i
         \<longleftrightarrow> i \<notin> set row"
proof (cases dat)
  case (BoolArr vs)
  obtain p js xs where t: "tocsr (\<or>) (fst shp) row col vs = (p, js, xs)" by (cases "tocsr (\<or>) (fst shp) row col vs")
  show ?thesis using assms BoolArr t tocsr_row_empty [OF t assms(1,2)] by simp
next
  case (Int64Arr vs)
  obtain p js xs where t: "tocsr (+) (fst shp) row col vs = (p, js, xs)" by (cases "tocsr (+) (fst shp) row col vs")
  show ?thesis using assms Int64Arr t tocsr_row_empty [OF t assms(1,2)] by simp
next
  case (Float64Arr vs)
  obtain p js xs where t: "tocsr (+) (fst shp) row col vs = (p, js, xs)" by (cases "tocsr (+) (fst shp) row col vs")
  show ?thesis using assms Float64Arr t tocsr_row_empty [OF t assms(1,2)] by simp
qed

lemma assemble_stored:
  assumes "i < fst shp" and "length row = length col" and "size_of dat = length col"
  shows "stored_at (assemble shp row col dat) i j =
     (if (i, j) \<in> set (zip row col) then [duplicates_total row col dat (i, j)] else [])"
proof (cases dat)
  case (BoolArr vs)
  obtain p js xs where t: "tocsr (\<or>) (fst shp) row col vs = (p, js, xs)" by (cases "tocsr (\<or>) (fst shp) row col vs")
  have e: "values_at row col vs (i, j) = [] \<longleftrightarrow> (i, j) \<notin> set (zip row col)"
    using assms BoolArr by (simp add: values_at_empty)
  show ?thesis using BoolArr t tocsr_stored [OF t assms(1), of j B] e
    by (auto simp: stored_at_def row_indices_def row_data_def foldl_or simp del: list_ex_Cons_iff split: list.splits)
next
  case (Int64Arr vs)
  obtain p js xs where t: "tocsr (+) (fst shp) row col vs = (p, js, xs)" by (cases "tocsr (+) (fst shp) row col vs")
  have e: "values_at row col vs (i, j) = [] \<longleftrightarrow> (i, j) \<notin> set (zip row col)"
    using assms Int64Arr by (simp add: values_at_empty)
  show ?thesis using Int64Arr t tocsr_stored [OF t assms(1), of j I] e
    by (auto simp: stored_at_def row_indices_def row_data_def foldl_plus simp del: sum_list.Cons split: list.splits)
next
  case (Float64Arr vs)
  obtain p js xs where t: "tocsr (+) (fst shp) row col vs = (p, js, xs)" by (cases "tocsr (+) (fst shp) row col vs")
  have e: "values_at row col vs (i, j) = [] \<longleftrightarrow> (i, j) \<notin> set (zip row col)"
    using assms Float64Arr by (simp add: values_at_empty)
  show ?thesis using Float64Arr t tocsr_stored [OF t assms(1), of j F] e
    by (auto simp: stored_at_def row_indices_def row_data_def foldl_plus simp del: sum_list.Cons split: list.splits)
qed

subsection \<open>The coordinate buffers of an edge list\<close>

lemma those_length: "those xs = Some ys \<Longrightarrow> length ys = length xs"
  by (induction xs arbitrary: ys) (auto split: option.splits)

lemma np_array_int64: "np_array es = Int64Arr2 w rows \<Longrightarrow> length rows = length es \<and> es \<noteq> []"
  by (auto simp: np_array_def split: list.splits if_splits option.splits dest!: those_length)

lemma np_array_float64: "np_array es = Float64Arr2 w rows \<Longrightarrow> length rows = length es \<and> es \<noteq> []"
  by (auto simp: np_array_def split: list.splits if_splits option.splits)

lemma coordinate_buffers_lengths:
  assumes "coordinate_buffers es = Inr (row, col, dat)"
  shows "length row = length es \<and> length col = length es \<and> size_of dat = length es \<and> es \<noteq> []"
  using assms
  by (cases "np_array es")
     (auto simp: coordinate_buffers_def Let_def ones_like_bool_def
       split: sum.splits if_splits dest: np_array_int64 np_array_float64)

lemma amax_Max:
  assumes "xs \<noteq> []"
  shows "amax xs = Inr (Max (sint ` set xs))"
proof (cases xs)
  case Nil
  with assms show ?thesis by simp
next
  case (Cons x xs')
  have "fold (\<lambda>y m. max (sint y) m) xs' a = fold max (map sint xs') a" for a
    by (simp add: fold_map comp_def)
  then show ?thesis
    using Cons Max.set_eq_fold [of "sint x" "map sint xs'"] by simp
qed

lemma edgelist2biadjacency_buffers:
  "edgelist2biadjacency es =
     (case coordinate_buffers es of
        Inl e \<Rightarrow> Inl e
      | Inr (row, col, dat) \<Rightarrow>
          csr_matrix dat row col (Max (sint ` set row) + 1, Max (sint ` set col) + 1))"
proof (cases "np_array es")
  case Arr1D
  then show ?thesis by (simp add: edgelist2biadjacency_def coordinate_buffers_def)
next
  case (Int64Arr2 w rows)
  then have "rows \<noteq> []" using np_array_int64 by fastforce
  with Int64Arr2 show ?thesis
    by (simp add: edgelist2biadjacency_def coordinate_buffers_def Let_def amax_Max split: sum.splits)
next
  case (Float64Arr2 w rows)
  then have "rows \<noteq> []" using np_array_float64 by fastforce
  with Float64Arr2 show ?thesis
    by (simp add: edgelist2biadjacency_def coordinate_buffers_def Let_def amax_Max split: sum.splits)
qed

lemma edgelist2adjacency_buffers:
  "edgelist2adjacency pol es u =
     (case coordinate_buffers es of
        Inl e \<Rightarrow> Inl e
      | Inr (row, col, dat) \<Rightarrow>
          (let n = max (Max (sint ` set row)) (Max (sint ` set col)) + 1 in
           case csr_matrix dat row col (n, n) of
             Inl e \<Rightarrow> Inl e
           | Inr adjacency \<Rightarrow> if u then Inr (directed2undirected pol adjacency) else Inr adjacency))"
proof (cases "np_array es")
  case Arr1D
  then show ?thesis by (simp add: edgelist2adjacency_def coordinate_buffers_def)
next
  case (Int64Arr2 w rows)
  then have "rows \<noteq> []" using np_array_int64 by fastforce
  with Int64Arr2 show ?thesis
    by (simp add: edgelist2adjacency_def coordinate_buffers_def Let_def amax_Max split: sum.splits)
next
  case (Float64Arr2 w rows)
  then have "rows \<noteq> []" using np_array_float64 by fastforce
  with Float64Arr2 show ?thesis
    by (simp add: edgelist2adjacency_def coordinate_buffers_def Let_def amax_Max split: sum.splits)
qed

lemma csr_matrix_above_max:
  assumes "row \<noteq> []" and "length row = length col" and "size_of dat = length row"
    and "Max (sint ` set row) < M" and "Max (sint ` set col) < N"
  shows "csr_matrix dat row col (M, N) =
     (if list_ex (\<lambda>r. sint r < 0) row \<or> list_ex (\<lambda>c. sint c < 0) col then Inl ValueError
      else Inr (assemble (nat M, nat N) (map pos row) (map pos col) dat))"
proof -
  have r: "\<And>r. r \<in> set row \<Longrightarrow> sint r < M"
    using assms(4) by (meson List.finite_set Max_ge finite_imageI imageI le_less_trans)
  have c: "\<And>c. c \<in> set col \<Longrightarrow> sint c < N"
    using assms(5) by (meson List.finite_set Max_ge finite_imageI imageI le_less_trans)
  have n1: "\<not> list_ex (\<lambda>r. M \<le> sint r) row" using r by (fastforce simp: list_ex_iff)
  have n2: "\<not> list_ex (\<lambda>c. N \<le> sint c) col" using c by (fastforce simp: list_ex_iff)
  have neg: "M < 0 \<or> N < 0 \<Longrightarrow> list_ex (\<lambda>r. sint r < 0) row \<or> list_ex (\<lambda>c. sint c < 0) col"
  proof -
    assume a: "M < 0 \<or> N < 0"
    obtain r0 where r0: "r0 \<in> set row" using assms(1) by (cases row) auto
    obtain c0 where c0: "c0 \<in> set col" using assms(1,2) by (cases col) auto
    have "sint r0 < 0 \<or> sint c0 < 0" using a r [OF r0] c [OF c0] by linarith
    with r0 c0 show ?thesis unfolding list_ex_iff by blast
  qed
  show ?thesis using n1 n2 neg assms(2,3) by (auto simp: csr_matrix_def)
qed

lemma those_map_Some:
  "those (map f xs) = Some ys \<longleftrightarrow> list_all (\<lambda>x. f x \<noteq> None) xs \<and> ys = map (\<lambda>x. the (f x)) xs"
  by (induction xs arbitrary: ys) (auto split: option.splits)

lemma those_map_None:
  "those (map f xs) = None \<longleftrightarrow> list_ex (\<lambda>x. f x = None) xs"
  by (induction xs) (auto split: option.splits)

lemma np_array_Cons:
  "np_array (e # es') =
     (if list_ex (\<lambda>r. length r \<noteq> length e) es' then Arr1D
      else (case those (map (\<lambda>r. those (map as_int64 r)) (e # es')) of
              Some rows \<Rightarrow>
                if concat (e # es') = [] then Float64Arr2 (length e) (map (map as_float64) (e # es'))
                else Int64Arr2 (length e) rows
            | None \<Rightarrow> Float64Arr2 (length e) (map (map as_float64) (e # es'))))"
  by (simp only: np_array_def list.case)

lemma np_array_uniform:
  assumes "es \<noteq> []" and "list_all (\<lambda>r. length r = w) es"
  shows "np_array es =
     (if list_all (list_all (\<lambda>p. as_int64 p \<noteq> None)) es \<and> concat es \<noteq> []
      then Int64Arr2 w (map (map (\<lambda>p. the (as_int64 p))) es)
      else Float64Arr2 w (map (map as_float64) es))"
proof -
  obtain e es' where es: "es = e # es'" using assms(1) by (cases es) auto
  have w: "length e = w" and u: "\<not> list_ex (\<lambda>r. length r \<noteq> length e) es'"
    using assms(2) es by (auto simp: list_all_iff list_ex_iff)
  let ?t = "those (map (\<lambda>r. those (map as_int64 r)) es)"
  show ?thesis
  proof (cases ?t)
    case None
    then have "list_ex (\<lambda>r. those (map as_int64 r) = None) es"
      by (simp only: those_map_None)
    then have "\<not> list_all (list_all (\<lambda>p. as_int64 p \<noteq> None)) es"
      by (auto simp: list_ex_iff list_all_iff those_map_None)
    with None [unfolded es] w u show ?thesis
      unfolding es np_array_Cons by (simp only: if_False option.case simp_thms)
  next
    case (Some rows)
    then have a: "list_all (\<lambda>r. those (map as_int64 r) \<noteq> None) es"
      and rows: "rows = map (\<lambda>r. the (those (map as_int64 r))) es"
      by (simp_all only: those_map_Some)
    have all: "list_all (list_all (\<lambda>p. as_int64 p \<noteq> None)) es"
      using a by (auto simp: list_all_iff those_map_None list_ex_iff)
    have "\<And>r. r \<in> set es \<Longrightarrow> the (those (map as_int64 r)) = map (\<lambda>p. the (as_int64 p)) r"
    proof -
      fix r assume "r \<in> set es"
      with a obtain ys where y: "those (map as_int64 r) = Some ys" by (auto simp: list_all_iff)
      then have "ys = map (\<lambda>p. the (as_int64 p)) r" by (simp only: those_map_Some)
      with y show "the (those (map as_int64 r)) = map (\<lambda>p. the (as_int64 p)) r"
        by simp
    qed
    then have rows': "rows = map (map (\<lambda>p. the (as_int64 p))) es" using rows by simp
    from Some [unfolded es] w u all rows' show ?thesis
      unfolding es np_array_Cons by (simp only: if_False option.case simp_thms) auto
  qed
qed

lemma np_array_ragged:
  assumes "\<not> list_all (\<lambda>r. length r = length (hd es)) es"
  shows "np_array es = Arr1D"
  using assms by (cases es) (auto simp: np_array_def list_all_iff list_ex_iff)

lemma is_int_as_int64: "as_int64 p \<noteq> None \<longleftrightarrow> is_int p"
  by (cases p) auto

lemma np_array_uniform':
  assumes "es \<noteq> []" and "list_all (\<lambda>r. length r = w) es"
  shows "np_array es =
     (if list_all (list_all is_int) es \<and> concat es \<noteq> []
      then Int64Arr2 w (map (map (\<lambda>p. the (as_int64 p))) es)
      else Float64Arr2 w (map (map as_float64) es))"
proof -
  have eq: "(\<lambda>p. as_int64 p \<noteq> None) = is_int"
    by (rule ext) (simp only: is_int_as_int64)
  show ?thesis using np_array_uniform [OF assms] by (simp only: eq)
qed

lemma coordinate_buffers_int:
  assumes "es \<noteq> []" and "list_all (\<lambda>r. length r = w) es" and "2 \<le> w"
    and "list_all (list_all is_int) es"
  shows "coordinate_buffers es =
     Inr (map (\<lambda>e. ucast (the (as_int64 (e ! 0)))) es,
          map (\<lambda>e. ucast (the (as_int64 (e ! 1)))) es,
          if 2 < w then Int64Arr (map (\<lambda>e. the (as_int64 (e ! 2))) es)
          else BoolArr (map (\<lambda>_. True) es))"
proof -
  have ne: "concat es \<noteq> []" using assms(1,2,3) by (cases es) (auto simp: list_all_iff)
  have a: "np_array es = Int64Arr2 w (map (map (\<lambda>p. the (as_int64 p))) es)"
    using np_array_uniform' [OF assms(1,2)] assms(4) ne by simp
  show ?thesis
    using assms(2,3)
    by (auto simp: coordinate_buffers_def a Let_def ones_like_bool_def list_all_iff)
qed

lemma coordinate_buffers_float:
  assumes "es \<noteq> []" and "list_all (\<lambda>r. length r = w) es" and "2 \<le> w"
    and "\<not> list_all (list_all is_int) es"
  shows "coordinate_buffers es =
     Inr (map (\<lambda>e. float_to_int32 (as_float64 (e ! 0))) es,
          map (\<lambda>e. float_to_int32 (as_float64 (e ! 1))) es,
          if 2 < w then Float64Arr (map (\<lambda>e. as_float64 (e ! 2)) es)
          else BoolArr (map (\<lambda>_. True) es))"
proof -
  have a: "np_array es = Float64Arr2 w (map (map as_float64) es)"
    using np_array_uniform' [OF assms(1,2)] assms(4) by simp
  show ?thesis
    using assms(2,3)
    by (auto simp: coordinate_buffers_def a Let_def ones_like_bool_def list_all_iff)
qed

lemma coordinate_buffers_Inr_uniform:
  assumes "coordinate_buffers es = Inr b"
  shows "es \<noteq> [] \<and> list_all (\<lambda>r. length r = length (hd es)) es \<and> 2 \<le> length (hd es)"
proof -
  have ne: "es \<noteq> []" using assms by (auto simp: coordinate_buffers_def np_array_def)
  have u: "list_all (\<lambda>r. length r = length (hd es)) es"
  proof (rule ccontr)
    assume "\<not> list_all (\<lambda>r. length r = length (hd es)) es"
    then have "np_array es = Arr1D" by (rule np_array_ragged)
    then have "coordinate_buffers es = Inl IndexError"
      by (simp add: coordinate_buffers_def)
    with assms show False by simp
  qed
  have "2 \<le> length (hd es)"
  proof (rule ccontr)
    assume "\<not> 2 \<le> length (hd es)"
    then have "\<not> 1 < length (hd es)" by simp
    then have "coordinate_buffers es = Inl IndexError"
      using np_array_uniform' [OF ne u]
      by (auto simp: coordinate_buffers_def Let_def split: sum.splits)
    with assms show False by simp
  qed
  with ne u show ?thesis by simp
qed

subsection \<open>Coercion to 32 bits\<close>

lemma ucast_wrap32: "(ucast (wrap32 i) :: 32 word) = ucast i"
  unfolding wrap32_def
  by (rule bit_word_eqI) (auto simp: bit_simps)

lemma sint_word_of_int_32:
  "- (2 ^ 31) \<le> t \<Longrightarrow> t < 2 ^ 31 \<Longrightarrow> sint (word_of_int t :: 32 word) = t"
  by (simp add: sint_sbintrunc' signed_take_bit_int_eq_self)

lemma ucast_64_32: "(ucast (i :: 64 word) :: 32 word) = word_of_int (sint i)"
  by (rule bit_word_eqI) (auto simp: bit_simps)

lemma float_to_int32_of_int:
  "- (2 ^ 31) \<le> t \<Longrightarrow> t < 2 ^ 31 \<Longrightarrow> float_to_int32 (real_of_int t) = word_of_int t"
  by (simp add: float_to_int32_def)

lemma float_to_int32_small:
  assumes "0 \<le> sint (i :: 64 word)" and "sint i < 2 ^ 31"
  shows "float_to_int32 (real_of_int (sint i)) = ucast i"
  unfolding ucast_64_32 using assms by (intro float_to_int32_of_int) auto

lemma pos_inject:
  assumes "0 \<le> sint a" and "0 \<le> sint b"
  shows "pos a = pos b \<longleftrightarrow> a = b"
proof
  assume "pos a = pos b"
  with assms have "sint a = sint b" by (simp add: pos_def)
  then show "a = b" by (rule signed_word_eqI)
qed simp

subsection \<open>Matrices returned by the conversions\<close>

lemma buffers_biadjacency:
  assumes "coordinate_buffers es = Inr (row, col, dat)"
  shows "edgelist2biadjacency es =
     (if list_ex (\<lambda>r. sint r < 0) row \<or> list_ex (\<lambda>c. sint c < 0) col then Inl ValueError
      else Inr (assemble (nat (Max (sint ` set row) + 1), nat (Max (sint ` set col) + 1))
                  (map pos row) (map pos col) dat))"
proof -
  from coordinate_buffers_lengths [OF assms]
  have l: "row \<noteq> []" "length row = length col" "size_of dat = length row" by auto
  show ?thesis
    unfolding edgelist2biadjacency_buffers assms
    using csr_matrix_above_max [OF l, of "Max (sint ` set row) + 1" "Max (sint ` set col) + 1"]
    by simp
qed

lemma buffers_adjacency:
  assumes "coordinate_buffers es = Inr (row, col, dat)"
  shows "edgelist2adjacency pol es False =
     (if list_ex (\<lambda>r. sint r < 0) row \<or> list_ex (\<lambda>c. sint c < 0) col then Inl ValueError
      else Inr (assemble (nat (max (Max (sint ` set row)) (Max (sint ` set col)) + 1),
                          nat (max (Max (sint ` set row)) (Max (sint ` set col)) + 1))
                  (map pos row) (map pos col) dat))"
proof -
  from coordinate_buffers_lengths [OF assms]
  have l: "row \<noteq> []" "length row = length col" "size_of dat = length row" by auto
  let ?n = "max (Max (sint ` set row)) (Max (sint ` set col)) + 1"
  show ?thesis
    unfolding edgelist2adjacency_buffers assms
    using csr_matrix_above_max [OF l, of ?n ?n]
    by (simp add: Let_def)
qed

lemma undirected_adjacency:
  "edgelist2adjacency pol es True =
     (case edgelist2adjacency pol es False of
        Inl e \<Rightarrow> Inl e
      | Inr adjacency \<Rightarrow> Inr (directed2undirected pol adjacency))"
  by (simp add: edgelist2adjacency_buffers Let_def split: sum.splits prod.splits)

lemma pos_less_Max:
  assumes "r \<in> set row" and "0 \<le> sint r"
  shows "pos r < nat (Max (sint ` set row) + 1)"
proof -
  have "sint r \<le> Max (sint ` set row)" using assms by simp
  with assms(2) show ?thesis by (simp add: pos_def)
qed

lemma returned_matrix:
  assumes "edgelist2biadjacency es = Inr m \<or> edgelist2adjacency pol es False = Inr m"
    and "coordinate_buffers es = Inr (row, col, dat)"
  shows "built_from m row col dat"
proof -
  from coordinate_buffers_lengths [OF assms(2)]
  have l: "row \<noteq> []" "length row = length col" "size_of dat = length col" by auto
  let ?a = "Max (sint ` set row)" and ?b = "Max (sint ` set col)"
  from assms(1) have nn: "\<not> (list_ex (\<lambda>r. sint r < 0) row \<or> list_ex (\<lambda>c. sint c < 0) col)"
    unfolding buffers_biadjacency [OF assms(2)] buffers_adjacency [OF assms(2)]
    by (auto split: if_splits)
  then have nonneg: "list_all (\<lambda>r. 0 \<le> sint r) row" "list_all (\<lambda>c. 0 \<le> sint c) col"
    by (auto simp: list_all_iff list_ex_iff not_less)
  from assms(1) show ?thesis
  proof
    assume "edgelist2biadjacency es = Inr m"
    then have m: "m = assemble (nat (?a + 1), nat (?b + 1)) (map pos row) (map pos col) dat"
      unfolding buffers_biadjacency [OF assms(2)] using nn by simp
    have "list_all (\<lambda>r. pos r < nat (?a + 1)) row"
      using nonneg(1) pos_less_Max [of _ row] unfolding list_all_iff by blast
    with m l nonneg show ?thesis unfolding built_from_def by blast
  next
    assume "edgelist2adjacency pol es False = Inr m"
    then have m: "m = assemble (nat (max ?a ?b + 1), nat (max ?a ?b + 1)) (map pos row) (map pos col) dat"
      unfolding buffers_adjacency [OF assms(2)] using nn by simp
    have "\<And>r. r \<in> set row \<Longrightarrow> pos r < nat (max ?a ?b + 1)"
      using nonneg(1) pos_less_Max [of _ row] unfolding list_all_iff by fastforce
    then have "list_all (\<lambda>r. pos r < nat (max ?a ?b + 1)) row"
      unfolding list_all_iff by blast
    with m l nonneg show ?thesis unfolding built_from_def by blast
  qed
qed

lemma returned_has_buffers:
  assumes "edgelist2biadjacency es = Inr m \<or> edgelist2adjacency pol es False = Inr m"
  shows "\<exists>row col dat. coordinate_buffers es = Inr (row, col, dat)"
  using assms
  by (cases "coordinate_buffers es")
     (auto simp: edgelist2biadjacency_buffers edgelist2adjacency_buffers)

lemma built_from_rows:
  assumes "built_from m row col dat" and "i < fst (shape m)"
  shows "sorted_wrt (<) (row_indices m i)"
    and "indptr m ! i = indptr m ! Suc i \<longleftrightarrow> i \<notin> pos ` set row"
    and "set (row_indices m i) = {j. (i, j) \<in> set (zip (map pos row) (map pos col))}"
proof -
  from assms(1) obtain M N where m: "m = assemble (M, N) (map pos row) (map pos col) dat"
    and l: "length row = length col" "size_of dat = length col"
    unfolding built_from_def by blast
  from assms(2) have i: "i < fst (M, N)" by (simp add: m assemble_shape)
  show "sorted_wrt (<) (row_indices m i)"
    unfolding m by (rule assemble_row_sorted [OF i])
  show "indptr m ! i = indptr m ! Suc i \<longleftrightarrow> i \<notin> pos ` set row"
    unfolding m using assemble_row_empty [OF i, of "map pos row" "map pos col" dat] l by simp
  show "set (row_indices m i) = {j. (i, j) \<in> set (zip (map pos row) (map pos col))}"
    unfolding m using assemble_row_keys [OF i, of "map pos row" "map pos col" dat] l by simp
qed

lemma indptr_length: "length (indptr (assemble shp row col dat)) = Suc (fst shp)"
  by (cases dat) (auto split: prod.splits dest: tocsr_lengths)

lemma duplicates_total_pos:
  assumes "list_all (\<lambda>r. 0 \<le> sint r) row" and "list_all (\<lambda>c. 0 \<le> sint c) col"
    and "0 \<le> sint r" and "0 \<le> sint c"
  shows "duplicates_total (map pos row) (map pos col) dat (pos r, pos c) =
         duplicates_total row col dat (r, c)"
proof -
  have inj: "inj_on pos (insert r (insert c (set row \<union> set col)))"
    using assms by (intro inj_onI) (auto simp: list_all_iff pos_inject)
  show ?thesis by (cases dat) (simp_all add: values_at_map [OF inj])
qed

lemma built_from_stored:
  assumes "built_from m row col dat" and "k < length row"
  shows "stored_at m (pos (row ! k)) (pos (col ! k)) =
         [duplicates_total row col dat (row ! k, col ! k)]"
proof -
  from assms(1) obtain M N where m: "m = assemble (M, N) (map pos row) (map pos col) dat"
    and l: "length row = length col" "size_of dat = length col"
    and nn: "list_all (\<lambda>r. 0 \<le> sint r) row" "list_all (\<lambda>c. 0 \<le> sint c) col"
    and b: "list_all (\<lambda>r. pos r < M) row"
    unfolding built_from_def by blast
  have k: "row ! k \<in> set row" "col ! k \<in> set col" using assms(2) l by auto
  then have i: "pos (row ! k) < fst (M, N)" using b by (auto simp: list_all_iff)
  have mem: "(pos (row ! k), pos (col ! k)) \<in> set (zip (map pos row) (map pos col))"
    using assms(2) l by (auto simp: set_zip intro!: exI [of _ k])
  have "stored_at m (pos (row ! k)) (pos (col ! k)) =
        [duplicates_total (map pos row) (map pos col) dat (pos (row ! k), pos (col ! k))]"
    unfolding m using assemble_stored [OF i, of "map pos row" "map pos col" dat "pos (col ! k)"] l mem
    by simp
  also have "\<dots> = [duplicates_total row col dat (row ! k, col ! k)]"
    using duplicates_total_pos [OF nn] k nn by (simp add: list_all_iff)
  finally show ?thesis .
qed

lemma built_from_indptr:
  assumes "built_from m row col dat"
  shows "length (indptr m) = Suc (fst (shape m))"
proof -
  from assms obtain M N where m: "m = assemble (M, N) (map pos row) (map pos col) dat"
    unfolding built_from_def by blast
  show ?thesis unfolding m by (simp add: indptr_length assemble_shape)
qed

text \<open>
  C8: in a matrix returned by \<^verbatim>\<open>edgelist2biadjacency\<close>, or built by the call of \<^verbatim>\<open>csr_matrix\<close>
  in \<^verbatim>\<open>edgelist2adjacency\<close>, the stored column indices of every row, read between its two
  row pointers, are strictly ascending; there are as many row pointers as rows, plus
  one; and the two pointers of a row are equal exactly when no record of the edge list
  has that row index.
\<close>

theorem csr_rows_strictly_ascending:
  assumes "edgelist2biadjacency es = Inr m \<or> edgelist2adjacency pol es False = Inr m"
    and "coordinate_buffers es = Inr (row, col, dat)"
    and "i < fst (shape m)"
  shows "sorted_wrt (<) (row_indices m i)
       \<and> length (indptr m) = Suc (fst (shape m))
       \<and> (indptr m ! i = indptr m ! Suc i) = (i \<notin> pos ` set row)"
proof -
  have b: "built_from m row col dat" using assms(1,2) by (rule returned_matrix)
  show ?thesis
    using built_from_rows(1,2) [OF b assms(3)] built_from_indptr [OF b] by simp
qed

theorem csr_rows_strictly_ascending_witness:
  "edgelist2biadjacency [[PyInt 0, PyInt 2], [PyInt 0, PyInt 1], [PyInt 2, PyInt 0]] =
     Inr \<lparr>shape = (3, 3), indptr = [0, 2, 2, 3], indices = [1, 2, 0],
          data = BoolArr [True, True, True]\<rparr>
   \<and> sorted_wrt (<)
        (row_indices \<lparr>shape = (3, 3), indptr = [0, 2, 2, 3], indices = [1, 2, 0],
          data = BoolArr [True, True, True]\<rparr> 0)
   \<and> indptr \<lparr>shape = (3, 3), indptr = [0, 2, 2, 3], indices = [1, 2, 0],
          data = BoolArr [True, True, True]\<rparr> ! 1 =
     indptr \<lparr>shape = (3, 3), indptr = [0, 2, 2, 3], indices = [1, 2, 0],
          data = BoolArr [True, True, True]\<rparr> ! Suc 1"
proof -
  let ?es = "[[PyInt 0, PyInt 2], [PyInt 0, PyInt 1], [PyInt 2, PyInt 0]]"
  let ?m = "\<lparr>shape = (3, 3), indptr = [0, 2, 2, 3], indices = [1, 2, 0],
          data = BoolArr [True, True, True]\<rparr>"
  have r: "edgelist2biadjacency ?es = Inr ?m" by code_simp
  have b: "coordinate_buffers ?es = Inr ([0, 0, 2], [2, 1, 0], BoolArr [True, True, True])"
    by code_simp
  have p: "(1::nat) \<notin> pos ` set [0, 0, 2]" by (simp add: pos_def)
  have i0: "0 < fst (shape ?m)" and i1: "1 < fst (shape ?m)" by simp_all
  from csr_rows_strictly_ascending [OF disjI1 [OF r] b i0]
       csr_rows_strictly_ascending [OF disjI1 [OF r] b i1] p r
  show ?thesis by simp
qed

subsection \<open>Unweighted edge lists and duplicate coordinates\<close>

lemma buffers_unweighted:
  assumes "list_all (\<lambda>e. length e = 2) es" and "coordinate_buffers es = Inr (row, col, dat)"
  shows "dat = BoolArr (map (\<lambda>_. True) es)"
proof -
  from coordinate_buffers_lengths [OF assms(2)] have ne: "es \<noteq> []" by simp
  have w: "(2::nat) \<le> 2" by simp
  show ?thesis
  proof (cases "list_all (list_all is_int) es")
    case True
    from coordinate_buffers_int [OF ne assms(1) w True] assms(2) show ?thesis by simp
  next
    case False
    from coordinate_buffers_float [OF ne assms(1) w False] assms(2) show ?thesis by simp
  qed
qed

lemma sum_duplicates_all_true:
  "list_all snd es \<Longrightarrow> list_all snd (sum_duplicates (\<or>) es)"
  by (induction "(\<or>)" es rule: sum_duplicates.induct) auto

lemma row_entries_values:
  "snd ` set (row_entries i row col vals) \<subseteq> set vals"
  by (force simp: row_entries_def dest: set_zip_rightD)

lemma tocsr_all_true:
  assumes "tocsr (\<or>) M row col vs = (p, js, xs)" and "list_all id vs"
  shows "list_all id xs"
proof -
  have "list_all snd (sum_duplicates (\<or>) (sort_key fst (row_entries i row col vs)))" for i
  proof (rule sum_duplicates_all_true)
    show "list_all snd (sort_key fst (row_entries i row col vs))"
      using row_entries_values [of i row col vs] assms(2)
      by (auto simp: list_all_iff)
  qed
  then show ?thesis
    using assms(1) by (auto simp: tocsr_def Let_def csr_rows_def list_all_iff)
qed

lemma built_from_unweighted:
  assumes "built_from m row col (BoolArr vs)" and "list_all id vs"
  shows "\<exists>xs. data m = BoolArr xs \<and> list_all id xs"
proof -
  from assms(1) obtain M N where m: "m = assemble (M, N) (map pos row) (map pos col) (BoolArr vs)"
    unfolding built_from_def by blast
  obtain p js xs where t: "tocsr (\<or>) M (map pos row) (map pos col) vs = (p, js, xs)"
    by (cases "tocsr (\<or>) M (map pos row) (map pos col) vs")
  from tocsr_all_true [OF t assms(2)] show ?thesis by (simp add: m t)
qed

lemma built_from_dtype:
  assumes "built_from m row col dat"
  shows "dtype_of (data m) = dtype_of dat"
proof -
  from assms obtain M N where m: "m = assemble (M, N) (map pos row) (map pos col) dat"
    unfolding built_from_def by blast
  show ?thesis unfolding m by (rule assemble_dtype)
qed

lemma values_at_subset: "set (values_at row col vals rc) \<subseteq> set vals"
  by (force simp: values_at_def dest: set_zip_rightD)

lemma duplicates_total_true:
  assumes "length row = length col" and "length col = length vs" and "k < length row"
    and "list_all id vs"
  shows "duplicates_total row col (BoolArr vs) (row ! k, col ! k) = B True"
proof -
  have "(row ! k, col ! k) \<in> set (zip row col)"
    using assms(1,3) by (auto simp: set_zip intro!: exI [of _ k])
  then have "values_at row col vs (row ! k, col ! k) \<noteq> []"
    using values_at_empty [OF assms(1,2)] by simp
  then obtain v where "v \<in> set (values_at row col vs (row ! k, col ! k))"
    by (cases "values_at row col vs (row ! k, col ! k)") auto
  moreover from this have "v" using values_at_subset [of row col vs] assms(4)
    by (auto simp: list_all_iff)
  ultimately show ?thesis by (auto simp: list_ex_iff)
qed



text \<open>
  C6: when every record of the edge list has two fields, the values of the matrix that
  \<^verbatim>\<open>edgelist2biadjacency\<close> returns, and of the one \<^verbatim>\<open>edgelist2adjacency\<close> builds at line 48
  (its result without symmetrization), are booleans, each of them \<^verbatim>\<open>True\<close>. From
  \<^verbatim>\<open>[(0, 1), (1, 2), (2, 0)]\<close> the adjacency matrix has shape \<^verbatim>\<open>(3, 3)\<close>, three stored entries
  and the value type \<^verbatim>\<open>bool\<close>.
\<close>

theorem unweighted_values_true:
  assumes "list_all (\<lambda>e. length e = 2) es"
    and "edgelist2adjacency pol es False = Inr m \<or> edgelist2biadjacency es = Inr m"
  shows "(\<exists>xs. data m = BoolArr xs \<and> list_all id xs)
       \<and> edgelist2adjacency pol [[PyInt 0, PyInt 1], [PyInt 1, PyInt 2], [PyInt 2, PyInt 0]] False =
           Inr \<lparr>shape = (3, 3), indptr = [0, 1, 2, 3], indices = [1, 2, 0],
                data = BoolArr [True, True, True]\<rparr>
       \<and> nnz \<lparr>shape = (3, 3), indptr = [0, 1, 2, 3], indices = [1, 2, 0],
                data = BoolArr [True, True, True]\<rparr> = 3
       \<and> dtype_of (BoolArr [True, True, True]) = dt_bool"
proof -
  from assms(2) have r: "edgelist2biadjacency es = Inr m \<or> edgelist2adjacency pol es False = Inr m"
    by blast
  from returned_has_buffers [OF r] obtain row col dat
    where b: "coordinate_buffers es = Inr (row, col, dat)" by blast
  have d: "dat = BoolArr (map (\<lambda>_. True) es)" using assms(1) b by (rule buffers_unweighted)
  have "built_from m row col (BoolArr (map (\<lambda>_. True) es))"
    using returned_matrix [OF r b] d by simp
  then have 1: "\<exists>xs. data m = BoolArr xs \<and> list_all id xs"
    by (rule built_from_unweighted) (simp add: list_all_iff)
  have 2: "edgelist2adjacency pol [[PyInt 0, PyInt 1], [PyInt 1, PyInt 2], [PyInt 2, PyInt 0]] False =
           Inr \<lparr>shape = (3, 3), indptr = [0, 1, 2, 3], indices = [1, 2, 0],
                data = BoolArr [True, True, True]\<rparr>"
    by code_simp
  from 1 2 show ?thesis by (simp add: nnz_def)
qed

theorem unweighted_values_true_witness:
  "edgelist2biadjacency [[PyInt 0, PyInt 0], [PyInt 1, PyInt 0], [PyInt 1, PyInt 1], [PyInt 2, PyInt 1]] =
     Inr \<lparr>shape = (3, 2), indptr = [0, 1, 3, 4], indices = [0, 0, 1, 1],
          data = BoolArr [True, True, True, True]\<rparr>
   \<and> (\<exists>xs. data \<lparr>shape = (3, 2), indptr = [0, 1, 3, 4], indices = [0, 0, 1, 1],
          data = BoolArr [True, True, True, True]\<rparr> = BoolArr xs \<and> list_all id xs)"
proof -
  let ?es = "[[PyInt 0, PyInt 0], [PyInt 1, PyInt 0], [PyInt 1, PyInt 1], [PyInt 2, PyInt 1]]"
  have a: "list_all (\<lambda>e. length e = 2) ?es" by simp
  have r: "edgelist2biadjacency ?es =
     Inr \<lparr>shape = (3, 2), indptr = [0, 1, 3, 4], indices = [0, 0, 1, 1],
          data = BoolArr [True, True, True, True]\<rparr>" by code_simp
  from unweighted_values_true [OF a disjI2 [OF r], of Maximum] r show ?thesis by blast
qed

text \<open>
  C10: when every record of the edge list has two fields, the returned matrix (of
  \<^verbatim>\<open>edgelist2biadjacency\<close>, or of \<^verbatim>\<open>edgelist2adjacency\<close> without symmetrization) has the
  value type \<^verbatim>\<open>bool\<close>, and at the coordinate pair of any record, however often the pair
  occurs, it stores the single value \<^verbatim>\<open>True\<close>: the duplicates are combined by logical or,
  not counted. From \<^verbatim>\<open>[(0, 1), (0, 1)]\<close> the matrix stores one \<^verbatim>\<open>True\<close>.
\<close>

theorem unweighted_duplicates_saturate:
  assumes "list_all (\<lambda>e. length e = 2) es"
    and "edgelist2biadjacency es = Inr m \<or> edgelist2adjacency pol es False = Inr m"
    and "coordinate_buffers es = Inr (row, col, dat)"
    and "k < length row"
  shows "dtype_of (data m) = dt_bool
       \<and> stored_at m (pos (row ! k)) (pos (col ! k)) = [B True]
       \<and> edgelist2biadjacency [[PyInt 0, PyInt 1], [PyInt 0, PyInt 1]] =
           Inr \<lparr>shape = (1, 2), indptr = [0, 1], indices = [1], data = BoolArr [True]\<rparr>
       \<and> edgelist2adjacency pol [[PyInt 0, PyInt 1], [PyInt 0, PyInt 1]] False =
           Inr \<lparr>shape = (2, 2), indptr = [0, 1, 1], indices = [1], data = BoolArr [True]\<rparr>"
proof -
  have d: "dat = BoolArr (map (\<lambda>_. True) es)" using assms(1,3) by (rule buffers_unweighted)
  have b: "built_from m row col dat" using assms(2,3) by (rule returned_matrix)
  from coordinate_buffers_lengths [OF assms(3)]
  have l: "length row = length col" "length col = length (map (\<lambda>_. True) es)" by simp_all
  have 1: "dtype_of (data m) = dt_bool" using built_from_dtype [OF b] d by simp
  have "stored_at m (pos (row ! k)) (pos (col ! k)) =
          [duplicates_total row col dat (row ! k, col ! k)]"
    using b assms(4) by (rule built_from_stored)
  also have "\<dots> = [B True]"
    unfolding d using duplicates_total_true [OF l assms(4)] by (simp add: list_all_iff)
  finally have 2: "stored_at m (pos (row ! k)) (pos (col ! k)) = [B True]" .
  have 3: "edgelist2biadjacency [[PyInt 0, PyInt 1], [PyInt 0, PyInt 1]] =
           Inr \<lparr>shape = (1, 2), indptr = [0, 1], indices = [1], data = BoolArr [True]\<rparr>"
    by code_simp
  have 4: "edgelist2adjacency pol [[PyInt 0, PyInt 1], [PyInt 0, PyInt 1]] False =
           Inr \<lparr>shape = (2, 2), indptr = [0, 1, 1], indices = [1], data = BoolArr [True]\<rparr>"
    by code_simp
  from 1 2 3 4 show ?thesis by blast
qed

theorem unweighted_duplicates_saturate_witness:
  "edgelist2biadjacency [[PyInt 1, PyInt 2], [PyInt 0, PyInt 0], [PyInt 1, PyInt 2], [PyInt 1, PyInt 2]] =
     Inr \<lparr>shape = (2, 3), indptr = [0, 1, 2], indices = [0, 2], data = BoolArr [True, True]\<rparr>
   \<and> stored_at \<lparr>shape = (2, 3), indptr = [0, 1, 2], indices = [0, 2], data = BoolArr [True, True]\<rparr>
        1 2 = [B True]"
proof -
  let ?es = "[[PyInt 1, PyInt 2], [PyInt 0, PyInt 0], [PyInt 1, PyInt 2], [PyInt 1, PyInt 2]]"
  let ?m = "\<lparr>shape = (2, 3), indptr = [0, 1, 2], indices = [0, 2], data = BoolArr [True, True]\<rparr>"
  have a: "list_all (\<lambda>e. length e = 2) ?es" by simp
  have r: "edgelist2biadjacency ?es = Inr ?m" by code_simp
  have b: "coordinate_buffers ?es = Inr ([1, 0, 1, 1], [2, 0, 2, 2], BoolArr [True, True, True, True])"
    by code_simp
  have k: "0 < length [1, 0, 1, 1 :: 32 word]" by simp
  from unweighted_duplicates_saturate [OF a disjI1 [OF r] b k, of Sum] r
  show ?thesis by (simp add: pos_def)
qed

subsection \<open>The shape of the returned matrix\<close>

lemma valid_index_coerced:
  assumes "valid_index p"
  shows "(ucast (the (as_int64 p)) :: 32 word) = of_nat (index_of p)"
    and "float_to_int32 (as_float64 p) = of_nat (index_of p)"
    and "sint (of_nat (index_of p) :: 32 word) = int (index_of p)"
proof -
  from assms obtain i where p: "p = PyInt i" and i: "0 \<le> sint i" "sint i < 2 ^ 31"
    by (cases p) auto
  have n: "int (index_of p) = sint i" using p i by simp
  have w: "(of_nat (index_of p) :: 32 word) = word_of_int (sint i)"
    unfolding n [symmetric] by simp
  show "(ucast (the (as_int64 p)) :: 32 word) = of_nat (index_of p)"
    unfolding w by (simp only: p as_int64.simps option.sel ucast_64_32)
  have "float_to_int32 (real_of_int (sint i)) = ucast i" using i by (rule float_to_int32_small)
  then show "float_to_int32 (as_float64 p) = of_nat (index_of p)"
    unfolding w by (simp only: p as_float64.simps ucast_64_32)
  show "sint (of_nat (index_of p) :: 32 word) = int (index_of p)"
    unfolding w n using i by (intro sint_word_of_int_32) auto
qed

lemma coerced_column:
  assumes "list_all (\<lambda>e. valid_index (e ! k)) es"
  shows "map (\<lambda>e. ucast (the (as_int64 (e ! k)))) es = map (\<lambda>e. of_nat (index_of (e ! k)) :: 32 word) es"
    and "map (\<lambda>e. float_to_int32 (as_float64 (e ! k))) es = map (\<lambda>e. of_nat (index_of (e ! k)) :: 32 word) es"
  using assms by (induction es) (simp_all add: valid_index_coerced)

lemma coerced_Max:
  assumes "es \<noteq> []" and "list_all (\<lambda>e. valid_index (e ! k)) es"
  shows "Max (sint ` set (map (\<lambda>e. of_nat (index_of (e ! k)) :: 32 word) es)) = int (max_index k es)"
proof -
  have "map sint (map (\<lambda>e. of_nat (index_of (e ! k)) :: 32 word) es) =
        map int (map (\<lambda>e. index_of (e ! k)) es)"
    using assms(2) by (induction es) (simp_all add: valid_index_coerced(3))
  then have "sint ` set (map (\<lambda>e. of_nat (index_of (e ! k)) :: 32 word) es) =
        int ` set (map (\<lambda>e. index_of (e ! k)) es)"
    by (metis set_map)
  moreover have "Max (int ` set (map (\<lambda>e. index_of (e ! k)) es)) =
        int (Max (set (map (\<lambda>e. index_of (e ! k)) es)))"
    using assms(1) by (intro mono_Max_commute [symmetric]) (auto simp: mono_def)
  ultimately show ?thesis by (simp only: max_index_def)
qed

lemma coerced_no_negative:
  assumes "list_all (\<lambda>e. valid_index (e ! k)) es"
  shows "\<not> list_ex (\<lambda>r. sint r < 0) (map (\<lambda>e. of_nat (index_of (e ! k)) :: 32 word) es)"
  using assms by (induction es) (simp_all add: valid_index_coerced(3))

lemma well_formed_parts:
  assumes "well_formed es"
  shows "es \<noteq> []" and "list_all (\<lambda>e. valid_index (e ! 0)) es"
    and "list_all (\<lambda>e. valid_index (e ! 1)) es"
    and "\<exists>w. list_all (\<lambda>r. length r = w) es \<and> 2 \<le> w"
proof -
  show "es \<noteq> []" using assms by (simp add: well_formed_def)
  show "list_all (\<lambda>e. valid_index (e ! 0)) es" using assms by (simp add: well_formed_def list_all_iff)
  show "list_all (\<lambda>e. valid_index (e ! 1)) es" using assms by (simp add: well_formed_def list_all_iff)
  from assms have "list_all (\<lambda>e. length e = 2) es \<or> list_all (\<lambda>e. length e = 3) es"
    by (simp add: well_formed_def)
  then show "\<exists>w. list_all (\<lambda>r. length r = w) es \<and> 2 \<le> w"
  proof
    assume "list_all (\<lambda>e. length e = 2) es"
    then show ?thesis by (intro exI [of _ 2]) simp
  next
    assume "list_all (\<lambda>e. length e = 3) es"
    then show ?thesis by (intro exI [of _ 3]) simp
  qed
qed

lemma well_formed_buffers:
  assumes "well_formed es"
  shows "\<exists>dat. coordinate_buffers es =
           Inr (map (\<lambda>e. of_nat (index_of (e ! 0))) es,
                map (\<lambda>e. of_nat (index_of (e ! 1))) es, dat)"
proof -
  note p = well_formed_parts [OF assms]
  from p(4) obtain w where u: "list_all (\<lambda>r. length r = w) es" and w: "2 \<le> w" by blast
  show ?thesis
  proof (cases "list_all (list_all is_int) es")
    case True
    show ?thesis
      unfolding coordinate_buffers_int [OF p(1) u w True]
        coerced_column(1) [OF p(2)] coerced_column(1) [OF p(3)]
      by blast
  next
    case False
    show ?thesis
      unfolding coordinate_buffers_float [OF p(1) u w False]
        coerced_column(2) [OF p(2)] coerced_column(2) [OF p(3)]
      by blast
  qed
qed

lemma directed2undirected_shape: "shape (directed2undirected pol m) = shape m"
  by (cases "data m"; cases pol) (simp_all add: directed2undirected_def of_rows_def Let_def)

lemma nat_Suc: "nat (int a + 1) = Suc a"
  by simp

text \<open>
  C3: on a non-empty edge list whose records all have two fields, or all three, the first
  two being non-negative integers of the \<^verbatim>\<open>int32\<close> range, \<^verbatim>\<open>edgelist2biadjacency\<close> returns
  a matrix with one more row than the largest row index and one more column than the
  largest column index, each taken on its own. The matrix need not be square when the
  two index ranges overlap: \<^verbatim>\<open>[(0, 0), (1, 0), (1, 1), (2, 1)]\<close> gives the shape \<^verbatim>\<open>(3, 2)\<close>.
\<close>

theorem biadjacency_shape:
  assumes "well_formed es"
  shows "(\<exists>m. edgelist2biadjacency es = Inr m
            \<and> shape m = (Suc (max_index 0 es), Suc (max_index 1 es)))
       \<and> edgelist2biadjacency
           [[PyInt 0, PyInt 0], [PyInt 1, PyInt 0], [PyInt 1, PyInt 1], [PyInt 2, PyInt 1]] =
           Inr \<lparr>shape = (3, 2), indptr = [0, 1, 3, 4], indices = [0, 0, 1, 1],
                data = BoolArr [True, True, True, True]\<rparr>"
proof -
  note p = well_formed_parts [OF assms]
  let ?row = "map (\<lambda>e. of_nat (index_of (e ! 0)) :: 32 word) es"
  let ?col = "map (\<lambda>e. of_nat (index_of (e ! 1)) :: 32 word) es"
  from well_formed_buffers [OF assms] obtain dat
    where b: "coordinate_buffers es = Inr (?row, ?col, dat)" by blast
  have "edgelist2biadjacency es =
          Inr (assemble (Suc (max_index 0 es), Suc (max_index 1 es)) (map pos ?row) (map pos ?col) dat)"
    unfolding buffers_biadjacency [OF b] coerced_Max [OF p(1,2)] coerced_Max [OF p(1,3)] nat_Suc
    using coerced_no_negative [OF p(2)] coerced_no_negative [OF p(3)] by (simp only: if_False simp_thms)
  then have 1: "\<exists>m. edgelist2biadjacency es = Inr m
            \<and> shape m = (Suc (max_index 0 es), Suc (max_index 1 es))"
    by (simp add: assemble_shape)
  have 2: "edgelist2biadjacency
           [[PyInt 0, PyInt 0], [PyInt 1, PyInt 0], [PyInt 1, PyInt 1], [PyInt 2, PyInt 1]] =
           Inr \<lparr>shape = (3, 2), indptr = [0, 1, 3, 4], indices = [0, 0, 1, 1],
                data = BoolArr [True, True, True, True]\<rparr>"
    by code_simp
  from 1 2 show ?thesis by blast
qed

theorem biadjacency_shape_witness:
  "well_formed [[PyInt 0, PyInt 5, PyFloat (1 / 2)], [PyInt 3, PyInt 1, PyInt 7]]
   \<and> (\<exists>m. edgelist2biadjacency [[PyInt 0, PyInt 5, PyFloat (1 / 2)], [PyInt 3, PyInt 1, PyInt 7]] = Inr m
          \<and> shape m = (4, 6))"
proof -
  let ?es = "[[PyInt 0, PyInt 5, PyFloat (1 / 2)], [PyInt 3, PyInt 1, PyInt 7]]"
  have w: "well_formed ?es" by (simp add: well_formed_def)
  have "max_index 0 ?es = 3" "max_index 1 ?es = 5" by (simp_all add: max_index_def)
  with biadjacency_shape [OF w] w show ?thesis by simp
qed

text \<open>
  C2: on a non-empty edge list whose records all have two fields, or all three, the first
  two being non-negative integers of the \<^verbatim>\<open>int32\<close> range, \<^verbatim>\<open>edgelist2adjacency\<close> returns,
  with or without symmetrization, a square matrix: its numbers of rows and of columns
  are both one more than the largest index found in the row and column fields.
\<close>

theorem adjacency_shape:
  assumes "well_formed es"
  shows "\<exists>m. edgelist2adjacency pol es undirected = Inr m
            \<and> shape m = (Suc (max (max_index 0 es) (max_index 1 es)),
                          Suc (max (max_index 0 es) (max_index 1 es)))"
proof -
  note p = well_formed_parts [OF assms]
  let ?row = "map (\<lambda>e. of_nat (index_of (e ! 0)) :: 32 word) es"
  let ?col = "map (\<lambda>e. of_nat (index_of (e ! 1)) :: 32 word) es"
  let ?n = "Suc (max (max_index 0 es) (max_index 1 es))"
  from well_formed_buffers [OF assms] obtain dat
    where b: "coordinate_buffers es = Inr (?row, ?col, dat)" by blast
  have n: "nat (max (int (max_index 0 es)) (int (max_index 1 es)) + 1) = ?n" by simp
  have f: "edgelist2adjacency pol es False =
          Inr (assemble (?n, ?n) (map pos ?row) (map pos ?col) dat)"
    unfolding buffers_adjacency [OF b] coerced_Max [OF p(1,2)] coerced_Max [OF p(1,3)] n
    using coerced_no_negative [OF p(2)] coerced_no_negative [OF p(3)] by (simp only: if_False simp_thms)
  show ?thesis
  proof (cases undirected)
    case False
    with f show ?thesis by (simp add: assemble_shape)
  next
    case True
    with f show ?thesis
      by (simp add: undirected_adjacency directed2undirected_shape assemble_shape)
  qed
qed

theorem adjacency_shape_witness:
  "well_formed [[PyInt 0, PyInt 5, PyFloat (1 / 2)], [PyInt 3, PyInt 1, PyInt 7]]
   \<and> (\<exists>m. edgelist2adjacency Maximum [[PyInt 0, PyInt 5, PyFloat (1 / 2)], [PyInt 3, PyInt 1, PyInt 7]] True = Inr m
          \<and> shape m = (6, 6))"
proof -
  let ?es = "[[PyInt 0, PyInt 5, PyFloat (1 / 2)], [PyInt 3, PyInt 1, PyInt 7]]"
  have w: "well_formed ?es" by (simp add: well_formed_def)
  have "max_index 0 ?es = 3" "max_index 1 ?es = 5" by (simp_all add: max_index_def)
  with adjacency_shape [OF w, of Maximum True] w show ?thesis by simp
qed

subsection \<open>Index coercion and value types\<close>

lemma length_wrap_edge: "length (wrap_edge e) = length e"
  by (induction e rule: wrap_edge.induct) auto

lemma wrap_edge_is_int: "list_all is_int e \<Longrightarrow> list_all is_int (wrap_edge e)"
  by (induction e rule: wrap_edge.induct) auto

lemma wrap_edge_index:
  assumes "list_all is_int e" and "2 \<le> length e"
  shows "(ucast (the (as_int64 (wrap_edge e ! 0))) :: 32 word) = ucast (the (as_int64 (e ! 0)))"
    and "(ucast (the (as_int64 (wrap_edge e ! 1))) :: 32 word) = ucast (the (as_int64 (e ! 1)))"
    and "wrap_edge e ! 2 = e ! 2"
proof -
  from assms obtain r c ws where e: "e = PyInt r # PyInt c # ws"
    by (cases e rule: wrap_edge.cases) auto
  show "(ucast (the (as_int64 (wrap_edge e ! 0))) :: 32 word) = ucast (the (as_int64 (e ! 0)))"
    by (simp add: e ucast_wrap32)
  show "(ucast (the (as_int64 (wrap_edge e ! 1))) :: 32 word) = ucast (the (as_int64 (e ! 1)))"
    by (simp add: e ucast_wrap32)
  show "wrap_edge e ! 2 = e ! 2" by (simp add: e)
qed

lemma coordinate_buffers_narrow:
  assumes "es \<noteq> []" and "list_all (\<lambda>r. length r = w) es" and "w < 2"
  shows "coordinate_buffers es = Inl IndexError"
  using np_array_uniform' [OF assms(1,2)] assms(3)
  by (auto simp: coordinate_buffers_def Let_def split: sum.splits)

lemma coordinate_buffers_ragged:
  assumes "\<not> list_all (\<lambda>r. length r = length (hd es)) es"
  shows "coordinate_buffers es = Inl IndexError"
  using np_array_ragged [OF assms] by (simp add: coordinate_buffers_def)

lemma coordinate_buffers_wrap:
  assumes "list_all (list_all is_int) es"
  shows "coordinate_buffers (map wrap_edge es) = coordinate_buffers es"
proof (cases "es = []")
  case True
  then show ?thesis by simp
next
  case ne: False
  let ?ws = "map wrap_edge es"
  let ?w = "length (hd es)"
  have ne': "?ws \<noteq> []" using ne by simp
  have hd: "length (hd ?ws) = ?w" using ne by (simp add: hd_map length_wrap_edge)
  have uni: "list_all (\<lambda>r. length r = ?w) ?ws \<longleftrightarrow> list_all (\<lambda>r. length r = ?w) es"
    by (simp add: list_all_iff length_wrap_edge)
  show ?thesis
  proof (cases "list_all (\<lambda>r. length r = ?w) es")
    case False
    then have "\<not> list_all (\<lambda>r. length r = length (hd ?ws)) ?ws" using uni hd by simp
    then have "coordinate_buffers ?ws = Inl IndexError" by (rule coordinate_buffers_ragged)
    moreover have "coordinate_buffers es = Inl IndexError"
      using False by (rule coordinate_buffers_ragged)
    ultimately show ?thesis by simp
  next
    case u: True
    then have u': "list_all (\<lambda>r. length r = ?w) ?ws" using uni by simp
    show ?thesis
    proof (cases "?w < 2")
      case True
      from coordinate_buffers_narrow [OF ne u True] coordinate_buffers_narrow [OF ne' u' True]
      show ?thesis by simp
    next
      case False
      then have w: "2 \<le> ?w" by simp
      have i': "list_all (list_all is_int) ?ws"
        using assms by (induction es) (simp_all add: wrap_edge_is_int)
      have e: "\<And>e. e \<in> set es \<Longrightarrow> list_all is_int e \<and> 2 \<le> length e"
        using assms u w by (auto simp: list_all_iff)
      have c0: "map (\<lambda>e. ucast (the (as_int64 (e ! 0))) :: 32 word) ?ws =
                map (\<lambda>e. ucast (the (as_int64 (e ! 0)))) es"
        using e by (simp add: wrap_edge_index(1))
      have c1: "map (\<lambda>e. ucast (the (as_int64 (e ! 1))) :: 32 word) ?ws =
                map (\<lambda>e. ucast (the (as_int64 (e ! 1)))) es"
        using e by (simp add: wrap_edge_index(2) del: One_nat_def)
      have c2: "map (\<lambda>e. the (as_int64 (e ! 2))) ?ws = map (\<lambda>e. the (as_int64 (e ! 2))) es"
        using e by (simp add: wrap_edge_index(3))
      have t: "map (\<lambda>_. True) ?ws = map (\<lambda>_. True) es" by simp
      show ?thesis
        unfolding coordinate_buffers_int [OF ne u w assms] coordinate_buffers_int [OF ne' u' w i']
        by (simp only: c0 c1 c2 t)
    qed
  qed
qed

lemma sint_wrap32: "sint (wrap32 i) = (sint i + 2 ^ 31) mod 2 ^ 32 - 2 ^ 31"
proof -
  have "sint (wrap32 i) = sint (ucast i :: 32 word)"
    unfolding wrap32_def by (simp add: sint_up_scast is_up)
  also have "\<dots> = (sint i + 2 ^ 31) mod 2 ^ 32 - 2 ^ 31"
    unfolding ucast_64_32 int_word_sint by simp
  finally show ?thesis .
qed

text \<open>
  C5, as the claim states it, fails: the row index \<open>2 ^ 32\<close> is outside the range of
  \<^verbatim>\<open>int32\<close>, and both conversions return a matrix, the index having become 0.
\<close>

theorem index_overflow_counterexample:
  "edgelist2biadjacency [[PyInt 4294967296, PyInt 1]] =
     Inr \<lparr>shape = (1, 2), indptr = [0, 1], indices = [1], data = BoolArr [True]\<rparr>
   \<and> edgelist2adjacency Maximum [[PyInt 4294967296, PyInt 1]] False =
     Inr \<lparr>shape = (2, 2), indptr = [0, 1, 1], indices = [1], data = BoolArr [True]\<rparr>
   \<and> edgelist2biadjacency [[PyInt 4294967296, PyInt 1]] \<noteq> Inl IndexOverflow
   \<and> edgelist2adjacency Maximum [[PyInt 4294967296, PyInt 1]] False \<noteq> Inl IndexOverflow"
proof -
  have 1: "edgelist2biadjacency [[PyInt 4294967296, PyInt 1]] =
     Inr \<lparr>shape = (1, 2), indptr = [0, 1], indices = [1], data = BoolArr [True]\<rparr>"
    by code_simp
  have 2: "edgelist2adjacency Maximum [[PyInt 4294967296, PyInt 1]] False =
     Inr \<lparr>shape = (2, 2), indptr = [0, 1, 1], indices = [1], data = BoolArr [True]\<rparr>"
    by code_simp
  show ?thesis unfolding 1 2 by simp
qed

text \<open>
  C5, amended: on an edge list whose fields are all integers of the signed 64-bit range
  (the lists \<^verbatim>\<open>np.array\<close> types as \<^verbatim>\<open>int64\<close>, and the only lists of integers that \<open>pynum\<close>
  can write), an index outside the range of \<^verbatim>\<open>int32\<close> is silently reduced to its low 32
  bits, read as a signed integer: each conversion gives on the edge list the result it
  gives on the list with every index reduced so (a matrix, or the \<open>ValueError\<close> of a
  negative index). It does not fail with \<open>IndexOverflow\<close>, on these edge lists or on any
  other of the model. Of an integer beyond 64 bits nothing is stated.
\<close>

theorem index_out_of_int32_wraps:
  assumes "list_all (list_all is_int) es"
  shows "edgelist2biadjacency es = edgelist2biadjacency (map wrap_edge es)
       \<and> edgelist2adjacency pol es undirected = edgelist2adjacency pol (map wrap_edge es) undirected
       \<and> sint (wrap32 i) = (sint i + 2 ^ 31) mod 2 ^ 32 - 2 ^ 31
       \<and> edgelist2biadjacency es' \<noteq> Inl IndexOverflow
       \<and> edgelist2adjacency pol es' undirected \<noteq> Inl IndexOverflow"
proof -
  have b: "coordinate_buffers (map wrap_edge es) = coordinate_buffers es"
    using assms by (rule coordinate_buffers_wrap)
  have 1: "edgelist2biadjacency es = edgelist2biadjacency (map wrap_edge es)"
    by (simp only: edgelist2biadjacency_buffers b)
  have 2: "edgelist2adjacency pol es undirected = edgelist2adjacency pol (map wrap_edge es) undirected"
    by (simp only: edgelist2adjacency_buffers b)
  have 3: "edgelist2biadjacency es' \<noteq> Inl IndexOverflow"
    using edgelist2biadjacency_error [of es' IndexOverflow] by auto
  have 4: "edgelist2adjacency pol es' undirected \<noteq> Inl IndexOverflow"
    using edgelist2adjacency_error [of pol es' undirected IndexOverflow] by auto
  from 1 2 3 4 sint_wrap32 [of i] show ?thesis by blast
qed

theorem index_out_of_int32_wraps_witness:
  "list_all (list_all is_int) [[PyInt 4294967298, PyInt 1, PyInt 7], [PyInt 0, PyInt 2147483648, PyInt 5]]
   \<and> edgelist2biadjacency [[PyInt 4294967298, PyInt 1, PyInt 7], [PyInt 0, PyInt 2147483648, PyInt 5]] =
     edgelist2biadjacency [[PyInt 2, PyInt 1, PyInt 7], [PyInt 0, PyInt (- 2147483648), PyInt 5]]
   \<and> edgelist2biadjacency [[PyInt 2, PyInt 1, PyInt 7], [PyInt 0, PyInt (- 2147483648), PyInt 5]] =
     Inl ValueError"
proof -
  let ?es = "[[PyInt 4294967298, PyInt 1, PyInt 7], [PyInt 0, PyInt 2147483648, PyInt 5]]"
  have a: "list_all (list_all is_int) ?es" by simp
  have w: "map wrap_edge ?es = [[PyInt 2, PyInt 1, PyInt 7], [PyInt 0, PyInt (- 2147483648), PyInt 5]]"
    by (simp add: wrap32_def)
  have v: "edgelist2biadjacency [[PyInt 2, PyInt 1, PyInt 7], [PyInt 0, PyInt (- 2147483648), PyInt 5]] =
     Inl ValueError" by code_simp
  from index_out_of_int32_wraps [OF a, of Sum False 0 "[]"] a v show ?thesis
    unfolding w by blast
qed

text \<open>
  C9, as the claim states it, fails: in this edge list of one record with three fields the
  weight is the integer 2 and the row index is the float 0.5; the value type of the
  matrix is \<^verbatim>\<open>float64\<close>, not an integer type.
\<close>

theorem integer_weights_counterexample:
  "edgelist2biadjacency [[PyFloat (1 / 2), PyInt 1, PyInt 2]] =
     Inr \<lparr>shape = (1, 2), indptr = [0, 1], indices = [1], data = Float64Arr [2]\<rparr>
   \<and> dtype_of (Float64Arr [2]) = dt_float64
   \<and> list_all (\<lambda>e. is_int (e ! 2)) [[PyFloat (1 / 2), PyInt 1, PyInt 2]]"
proof -
  have 1: "edgelist2biadjacency [[PyFloat (1 / 2), PyInt 1, PyInt 2]] =
     Inr \<lparr>shape = (1, 2), indptr = [0, 1], indices = [1], data = Float64Arr [2]\<rparr>"
    by code_simp
  show ?thesis unfolding 1 by simp
qed

lemma buffers_weighted:
  assumes "list_all (\<lambda>e. length e = 3) es" and "coordinate_buffers es = Inr (row, col, dat)"
  shows "dtype_of dat = (if list_all (list_all is_int) es then dt_int64 else dt_float64)"
proof -
  from coordinate_buffers_lengths [OF assms(2)] have ne: "es \<noteq> []" by simp
  have w: "(2::nat) \<le> 3" by simp
  show ?thesis
  proof (cases "list_all (list_all is_int) es")
    case True
    from coordinate_buffers_int [OF ne assms(1) w True] assms(2) True show ?thesis by auto
  next
    case False
    from coordinate_buffers_float [OF ne assms(1) w False] assms(2) False show ?thesis by auto
  qed
qed

text \<open>
  C9, amended: let every record of the edge list have three fields, its integers being of
  the signed 64-bit range (the ones \<^verbatim>\<open>np.array\<close> types as \<^verbatim>\<open>int64\<close>, and the only ones \<open>pynum\<close>
  can write). When every field of every record, the two indices as well as the weight,
  is an integer, the value type of the returned matrix is an integer type, \<^verbatim>\<open>int64\<close>; so it
  is in particular when the indices are index fields of the data model and every weight
  is an integer. When any field, an index or a weight, is a float, the value type is
  \<^verbatim>\<open>float64\<close>, so that every stored value is a float, the weights written as integers too:
  from \<^verbatim>\<open>[(0, 1, 0.5), (1, 2, 4), (2, 0, 1.25)]\<close> the values are 0.5, 4.0 and 1.25. The matrix
  is the one of \<^verbatim>\<open>edgelist2biadjacency\<close>, or of \<^verbatim>\<open>edgelist2adjacency\<close> without symmetrization.
  Of an integer beyond 64 bits nothing is stated.
\<close>

theorem value_type_inference:
  assumes "list_all (\<lambda>e. length e = 3) es"
    and "edgelist2biadjacency es = Inr m \<or> edgelist2adjacency pol es False = Inr m"
  shows "dtype_of (data m) = (if list_all (list_all is_int) es then dt_int64 else dt_float64)
       \<and> (well_formed es \<and> list_all (\<lambda>e. is_int (e ! 2)) es \<longrightarrow> dtype_of (data m) = dt_int64)
       \<and> edgelist2adjacency pol
           [[PyInt 0, PyInt 1, PyFloat (1 / 2)], [PyInt 1, PyInt 2, PyInt 4],
            [PyInt 2, PyInt 0, PyFloat (5 / 4)]] False =
           Inr \<lparr>shape = (3, 3), indptr = [0, 1, 2, 3], indices = [1, 2, 0],
                data = Float64Arr [1 / 2, 4, 5 / 4]\<rparr>"
proof -
  from returned_has_buffers [OF assms(2)] obtain row col dat
    where b: "coordinate_buffers es = Inr (row, col, dat)" by blast
  have "dtype_of (data m) = dtype_of dat"
    using returned_matrix [OF assms(2) b] by (rule built_from_dtype)
  then have 1: "dtype_of (data m) = (if list_all (list_all is_int) es then dt_int64 else dt_float64)"
    using buffers_weighted [OF assms(1) b] by simp
  have 2: "edgelist2adjacency pol
           [[PyInt 0, PyInt 1, PyFloat (1 / 2)], [PyInt 1, PyInt 2, PyInt 4],
            [PyInt 2, PyInt 0, PyFloat (5 / 4)]] False =
           Inr \<lparr>shape = (3, 3), indptr = [0, 1, 2, 3], indices = [1, 2, 0],
                data = Float64Arr [1 / 2, 4, 5 / 4]\<rparr>"
    by code_simp
  have 3: "dtype_of (data m) = dt_int64"
    if w: "well_formed es" and i: "list_all (\<lambda>e. is_int (e ! 2)) es"
  proof -
    have "list_all is_int e" if e: "e \<in> set es" for e
    proof -
      from e assms(1) have l: "length e = 3" by (simp add: list_all_iff)
      from e w have v: "valid_index (e ! 0)" "valid_index (e ! 1)"
        by (simp_all add: well_formed_def list_all_iff)
      from e i have c: "is_int (e ! 2)" by (simp add: list_all_iff)
      from l obtain x y z where xyz: "e = [x, y, z]"
        by (cases e; cases "tl e"; cases "tl (tl e)") auto
      from v have "is_int x" "is_int y" unfolding xyz by (cases x; cases y; simp)+
      with c show ?thesis unfolding xyz by simp
    qed
    then have "list_all (list_all is_int) es" by (simp add: list_all_iff)
    with 1 show ?thesis by simp
  qed
  from 1 2 3 show ?thesis by blast
qed

theorem value_type_inference_witness:
  "list_all (\<lambda>e. length e = 3) [[PyInt 0, PyInt 1, PyInt 2], [PyInt 1, PyInt 0, PyInt 3]]
   \<and> edgelist2biadjacency [[PyInt 0, PyInt 1, PyInt 2], [PyInt 1, PyInt 0, PyInt 3]] =
       Inr \<lparr>shape = (2, 2), indptr = [0, 1, 2], indices = [1, 0], data = Int64Arr [2, 3]\<rparr>
   \<and> dtype_of (data \<lparr>shape = (2, 2), indptr = [0, 1, 2], indices = [1, 0], data = Int64Arr [2, 3]\<rparr>)
       = dt_int64"
proof -
  let ?es = "[[PyInt 0, PyInt 1, PyInt 2], [PyInt 1, PyInt 0, PyInt 3]]"
  have a: "list_all (\<lambda>e. length e = 3) ?es" by simp
  have r: "edgelist2biadjacency ?es =
       Inr \<lparr>shape = (2, 2), indptr = [0, 1, 2], indices = [1, 0], data = Int64Arr [2, 3]\<rparr>"
    by code_simp
  have i: "list_all (list_all is_int) ?es" by simp
  from value_type_inference [OF a disjI1 [OF r], of Sum] a r i show ?thesis by simp
qed

subsection \<open>Symmetrization\<close>

lemma map_of_nonzero:
  "map_of (filter (\<lambda>e. snd e \<noteq> z) (map (\<lambda>j. (j, h j)) [0..<n])) j =
     (if j < n \<and> h j \<noteq> z then Some (h j) else None)"
proof -
  have "filter (\<lambda>e. snd e \<noteq> z) (map (\<lambda>j. (j, h j)) [0..<n]) =
        map (\<lambda>j. (j, h j)) (filter (\<lambda>j. h j \<noteq> z) [0..<n])"
    by (simp add: filter_map comp_def)
  then show ?thesis
    by (simp add: map_of_map_restrict restrict_map_def)
qed

lemma map_of_zip_values:
  "map_of (zip (map fst r) (map (\<lambda>e. C (snd e)) r)) j = map_option C (map_of r j)"
  by (induction r) auto

lemma map_of_map_values:
  "map_of (map (\<lambda>e. (fst e, C (snd e))) r) j = map_option C (map_of r j)"
  by (induction r) auto

lemma of_rows_value:
  assumes "i < length rs" and "zero_of (mk []) = C z" and "\<And>xs. zero_of (mk xs) = zero_of (mk [])"
    and "\<And>xs. tolist (mk xs) = map C xs"
  shows "value_at (of_rows shp mk rs) i j =
     (case map_of (rs ! i) j of None \<Rightarrow> C z | Some v \<Rightarrow> C v)"
proof -
  have 1: "row_indices (of_rows shp mk rs) i = map fst (rs ! i)"
    using segment_concat [OF assms(1), of fst] by (simp add: row_indices_def of_rows_def)
  have "row_data (of_rows shp mk rs) i =
        segment (cumsum 0 (map length rs)) i (concat (map (map (\<lambda>e. C (snd e))) rs))"
    by (simp add: row_data_def of_rows_def assms(4) map_concat comp_def)
  then have 2: "row_data (of_rows shp mk rs) i = map (\<lambda>e. C (snd e)) (rs ! i)"
    using segment_concat [OF assms(1), of "\<lambda>e. C (snd e)"] by simp
  have 3: "zero_of (data (of_rows shp mk rs)) = C z"
    using assms(2,3) by (simp add: of_rows_def)
  show ?thesis
    unfolding value_at_def 1 2 3 map_of_zip_values by (simp split: option.splits)
qed

lemma sym_rows_value:
  assumes "i < n" and "j < n" and "zero_of (mk []) = C z" and "\<And>xs. zero_of (mk xs) = zero_of (mk [])"
    and "\<And>xs. tolist (mk xs) = map C xs"
  shows "value_at (of_rows shp mk (sym_rows z f n g)) i j = C (f (g i j) (g j i))"
proof -
  have l: "i < length (sym_rows z f n g)" using assms(1) by (simp add: sym_rows_def)
  have r: "sym_rows z f n g ! i =
           filter (\<lambda>e. snd e \<noteq> z) (map (\<lambda>j. (j, f (g i j) (g j i))) [0..<n])"
    using assms(1) by (simp add: sym_rows_def)
  show ?thesis
    unfolding of_rows_value [OF l assms(3,4,5)] r map_of_nonzero using assms(2) by simp
qed

lemma entry_value:
  assumes "tolist (data m) = map C xs" and "zero_of (data m) = C z"
  shows "value_at m i j = C (entry z (indptr m) (indices m) xs i j)"
proof -
  have "zip (row_indices m i) (row_data m i) =
        map (\<lambda>e. (fst e, C (snd e))) (zip (segment (indptr m) i (indices m)) (segment (indptr m) i xs))"
    by (simp add: row_indices_def row_data_def assms(1) segment_map zip_map2 case_prod_beta)
  then have "map_of (zip (row_indices m i) (row_data m i)) j =
        map_option C (map_of (zip (segment (indptr m) i (indices m)) (segment (indptr m) i xs)) j)"
    by (simp only: map_of_map_values)
  then show ?thesis
    by (simp add: value_at_def entry_def assms(2) split: option.splits)
qed

lemma max_int64_commute: "max_int64 a b = max_int64 b a"
proof (cases "sint a = sint b")
  case True
  then have "a = b" by (rule signed_word_eqI)
  then show ?thesis by simp
next
  case False
  then show ?thesis by (auto simp: max_int64_def)
qed

lemma directed2undirected_value:
  assumes "i < fst (shape a)" and "j < fst (shape a)"
  shows "value_at (directed2undirected pol a) i j = combine pol (value_at a i j) (value_at a j i)"
    and "value_at (directed2undirected pol a) i j = value_at (directed2undirected pol a) j i"
proof -
  let ?n = "fst (shape a)" and ?p = "indptr a" and ?js = "indices a"
  have both: "value_at (directed2undirected pol a) i j = combine pol (value_at a i j) (value_at a j i)
      \<and> combine pol (value_at a i j) (value_at a j i) = combine pol (value_at a j i) (value_at a i j)"
    if "i < ?n" and "j < ?n" for i j
  proof (cases "data a")
    case (BoolArr xs)
    have v: "\<And>i j. value_at a i j = B (entry False ?p ?js xs i j)"
      by (rule entry_value) (simp_all add: BoolArr)
    have "value_at (of_rows (shape a) BoolArr (sym_rows False (\<or>) ?n (entry False ?p ?js xs))) i j =
          B (entry False ?p ?js xs i j \<or> entry False ?p ?js xs j i)"
      by (rule sym_rows_value [OF that]) simp_all
    then show ?thesis
      by (cases pol) (auto simp: directed2undirected_def Let_def BoolArr v)
  next
    case (Int64Arr xs)
    have v: "\<And>i j. value_at a i j = I (entry 0 ?p ?js xs i j)"
      by (rule entry_value) (simp_all add: Int64Arr)
    have 1: "value_at (of_rows (shape a) Int64Arr (sym_rows 0 max_int64 ?n (entry 0 ?p ?js xs))) i j =
          I (max_int64 (entry 0 ?p ?js xs i j) (entry 0 ?p ?js xs j i))"
      by (rule sym_rows_value [OF that]) simp_all
    have 2: "value_at (of_rows (shape a) Int64Arr (sym_rows 0 (+) ?n (entry 0 ?p ?js xs))) i j =
          I (entry 0 ?p ?js xs i j + entry 0 ?p ?js xs j i)"
      by (rule sym_rows_value [OF that]) simp_all
    have 3: "value_at (of_rows (shape a) BoolArr
               (sym_rows False (\<or>) ?n (\<lambda>i j. entry 0 ?p ?js xs i j \<noteq> 0))) i j =
          B (entry 0 ?p ?js xs i j \<noteq> 0 \<or> entry 0 ?p ?js xs j i \<noteq> 0)"
      by (rule sym_rows_value [OF that]) simp_all
    show ?thesis
    proof (cases pol)
      case Maximum
      with 1 show ?thesis
        using max_int64_commute by (simp add: directed2undirected_def Let_def Int64Arr v)
    next
      case Sum
      with 2 show ?thesis by (simp add: directed2undirected_def Let_def Int64Arr v add.commute)
    next
      case LogicalOr
      with 3 show ?thesis by (auto simp: directed2undirected_def Let_def Int64Arr v)
    qed
  next
    case (Float64Arr xs)
    have v: "\<And>i j. value_at a i j = F (entry 0 ?p ?js xs i j)"
      by (rule entry_value) (simp_all add: Float64Arr)
    have 1: "value_at (of_rows (shape a) Float64Arr (sym_rows 0 max ?n (entry 0 ?p ?js xs))) i j =
          F (max (entry 0 ?p ?js xs i j) (entry 0 ?p ?js xs j i))"
      by (rule sym_rows_value [OF that]) simp_all
    have 2: "value_at (of_rows (shape a) Float64Arr (sym_rows 0 (+) ?n (entry 0 ?p ?js xs))) i j =
          F (entry 0 ?p ?js xs i j + entry 0 ?p ?js xs j i)"
      by (rule sym_rows_value [OF that]) simp_all
    have 3: "value_at (of_rows (shape a) BoolArr
               (sym_rows False (\<or>) ?n (\<lambda>i j. entry 0 ?p ?js xs i j \<noteq> 0))) i j =
          B (entry 0 ?p ?js xs i j \<noteq> 0 \<or> entry 0 ?p ?js xs j i \<noteq> 0)"
      by (rule sym_rows_value [OF that]) simp_all
    show ?thesis
    proof (cases pol)
      case Maximum
      with 1 show ?thesis by (simp add: directed2undirected_def Let_def Float64Arr v max.commute)
    next
      case Sum
      with 2 show ?thesis by (simp add: directed2undirected_def Let_def Float64Arr v add.commute)
    next
      case LogicalOr
      with 3 show ?thesis by (auto simp: directed2undirected_def Let_def Float64Arr v)
    qed
  qed
  from both [OF assms] show "value_at (directed2undirected pol a) i j =
     combine pol (value_at a i j) (value_at a j i)" by simp
  from both [OF assms] both [OF assms(2,1)]
  show "value_at (directed2undirected pol a) i j = value_at (directed2undirected pol a) j i"
    by simp
qed

text \<open>
  C7: when \<^verbatim>\<open>edgelist2adjacency\<close> is called with \<^verbatim>\<open>undirected=True\<close>, it returns what the
  symmetrization routine makes of the adjacency matrix \<open>a\<close> it returns without the flag: a
  matrix of the same shape whose value at every coordinate \<open>(i, j)\<close> is the combination of
  the values of \<open>a\<close> at \<open>(i, j)\<close> and at \<open>(j, i)\<close>, whichever of the three combining operators
  is chosen; hence a symmetric matrix. From \<^verbatim>\<open>[(0, 1), (1, 2), (2, 0)]\<close> the result has the
  shape \<^verbatim>\<open>(3, 3)\<close> and six stored entries, every edge and its mirror.
  \<^verbatim>\<open>edgelist2biadjacency\<close> returns the assembled matrix as it is: the columns stored in a
  row are the column indices of the records with that row index and no others, and the
  same three edges give three stored entries.
\<close>

theorem undirected_is_symmetrized:
  assumes "edgelist2adjacency pol es False = Inr a"
    and "i < fst (shape a)" and "j < fst (shape a)"
    and "edgelist2biadjacency bs = Inr m"
    and "coordinate_buffers bs = Inr (row, col, dat)"
    and "k < fst (shape m)"
  shows "edgelist2adjacency pol es True = Inr (directed2undirected pol a)
       \<and> shape (directed2undirected pol a) = shape a
       \<and> value_at (directed2undirected pol a) i j = combine pol (value_at a i j) (value_at a j i)
       \<and> value_at (directed2undirected pol a) i j = value_at (directed2undirected pol a) j i
       \<and> edgelist2adjacency pol [[PyInt 0, PyInt 1], [PyInt 1, PyInt 2], [PyInt 2, PyInt 0]] True =
           Inr \<lparr>shape = (3, 3), indptr = [0, 2, 4, 6], indices = [1, 2, 0, 2, 0, 1],
                data = BoolArr [True, True, True, True, True, True]\<rparr>
       \<and> nnz \<lparr>shape = (3, 3), indptr = [0, 2, 4, 6], indices = [1, 2, 0, 2, 0, 1],
                data = BoolArr [True, True, True, True, True, True]\<rparr> = 6
       \<and> set (row_indices m k) = {c. (k, c) \<in> set (zip (map pos row) (map pos col))}
       \<and> edgelist2biadjacency [[PyInt 0, PyInt 1], [PyInt 1, PyInt 2], [PyInt 2, PyInt 0]] =
           Inr \<lparr>shape = (3, 3), indptr = [0, 1, 2, 3], indices = [1, 2, 0],
                data = BoolArr [True, True, True]\<rparr>"
proof -
  have 1: "edgelist2adjacency pol es True = Inr (directed2undirected pol a)"
    using assms(1) by (simp add: undirected_adjacency)
  have 2: "shape (directed2undirected pol a) = shape a" by (rule directed2undirected_shape)
  note 3 = directed2undirected_value [OF assms(2,3), of pol]

  have f: "edgelist2adjacency pol [[PyInt 0, PyInt 1], [PyInt 1, PyInt 2], [PyInt 2, PyInt 0]] False =
           Inr \<lparr>shape = (3, 3), indptr = [0, 1, 2, 3], indices = [1, 2, 0],
                data = BoolArr [True, True, True]\<rparr>"
    by code_simp
  have d: "directed2undirected pol \<lparr>shape = (3, 3), indptr = [0, 1, 2, 3], indices = [1, 2, 0],
                data = BoolArr [True, True, True]\<rparr> =
           \<lparr>shape = (3, 3), indptr = [0, 2, 4, 6], indices = [1, 2, 0, 2, 0, 1],
                data = BoolArr [True, True, True, True, True, True]\<rparr>"
    by code_simp
  have 4: "edgelist2adjacency pol [[PyInt 0, PyInt 1], [PyInt 1, PyInt 2], [PyInt 2, PyInt 0]] True =
           Inr \<lparr>shape = (3, 3), indptr = [0, 2, 4, 6], indices = [1, 2, 0, 2, 0, 1],
                data = BoolArr [True, True, True, True, True, True]\<rparr>"
    unfolding undirected_adjacency f by (simp only: sum.case d)
  have 5: "nnz \<lparr>shape = (3, 3), indptr = [0, 2, 4, 6], indices = [1, 2, 0, 2, 0, 1],
                data = BoolArr [True, True, True, True, True, True]\<rparr> = 6"
    by (simp add: nnz_def)
  have b: "built_from m row col dat"
    using disjI1 [OF assms(4)] assms(5) by (rule returned_matrix)
  note 6 = built_from_rows(3) [OF b assms(6)]
  have 7: "edgelist2biadjacency [[PyInt 0, PyInt 1], [PyInt 1, PyInt 2], [PyInt 2, PyInt 0]] =
           Inr \<lparr>shape = (3, 3), indptr = [0, 1, 2, 3], indices = [1, 2, 0],
                data = BoolArr [True, True, True]\<rparr>"
    by code_simp
  from 1 2 3 4 5 6 7 show ?thesis by blast
qed

theorem undirected_is_symmetrized_witness:
  "edgelist2adjacency Sum [[PyInt 0, PyInt 1, PyInt 2], [PyInt 1, PyInt 0, PyInt 3], [PyInt 1, PyInt 1, PyInt 4]] True =
     Inr \<lparr>shape = (2, 2), indptr = [0, 1, 3], indices = [1, 0, 1], data = Int64Arr [5, 5, 8]\<rparr>
   \<and> value_at \<lparr>shape = (2, 2), indptr = [0, 1, 3], indices = [1, 0, 1], data = Int64Arr [5, 5, 8]\<rparr> 0 1 =
     combine Sum (I 2) (I 3)
   \<and> set (row_indices \<lparr>shape = (2, 2), indptr = [0, 1, 3], indices = [1, 0, 1], data = Int64Arr [2, 3, 4]\<rparr> 0) = {1}"
proof -
  let ?es = "[[PyInt 0, PyInt 1, PyInt 2], [PyInt 1, PyInt 0, PyInt 3], [PyInt 1, PyInt 1, PyInt 4]]"
  let ?a = "\<lparr>shape = (2, 2), indptr = [0, 1, 3], indices = [1, 0, 1], data = Int64Arr [2, 3, 4]\<rparr>"
  let ?u = "\<lparr>shape = (2, 2), indptr = [0, 1, 3], indices = [1, 0, 1], data = Int64Arr [5, 5, 8]\<rparr>"
  have a: "edgelist2adjacency Sum ?es False = Inr ?a" by code_simp
  have m: "edgelist2biadjacency ?es = Inr ?a" by code_simp
  have b: "coordinate_buffers ?es = Inr ([0, 1, 1], [1, 0, 1], Int64Arr [2, 3, 4])" by code_simp
  have i: "0 < fst (shape ?a)" and j: "1 < fst (shape ?a)" by simp_all
  have u: "directed2undirected Sum ?a = ?u" by code_simp
  have v: "value_at ?a 0 1 = I 2" "value_at ?a 1 0 = I 3" by code_simp+
  have z: "{c. (0::nat, c) \<in> set (zip (map pos [0, 1, 1]) (map pos [1, 0, 1]))} = {1::nat}"
    by (auto simp: pos_def)
  from undirected_is_symmetrized [OF a i j m b i]
  show ?thesis unfolding u v z by blast
qed

end
